theory Spec2Isabelle
  imports Complex_Main
begin

section \<open>The circuit evaluator of test\_decomposition.py\<close>

text \<open>
  The evaluator \<open>gates_to_matrix\<close> turns a list of gates into a square complex matrix of
  dimension \<open>2 ^ num_qubits\<close>. The model works over exact complex numbers: the rounding of
  the double-precision arithmetic of the source is outside the model.

  A numpy array of shape \<open>(dim, dim)\<close> is a list of \<open>dim\<close> rows, each a list of \<open>dim\<close>
  complex numbers. The exceptions the source can raise are values of type \<open>error\<close>:
  Python raises \<open>ValueError\<close> for a shift by a negative count; numpy raises
  \<open>OverflowError\<close> for an index that does not fit a C long of 64 bits and \<open>IndexError\<close>
  for any other index outside the array.
\<close>

datatype error = ValueError | IndexError | OverflowError

text \<open>
  A gate is a pair \<open>(gate_type, params)\<close> in the source, with \<open>gate_type\<close> one of the
  strings \<open>"CNOT"\<close> (params: control, target) and \<open>"RZ"\<close> (params: angle, qubit).
  Angles are floats, read as real numbers. Qubit indices are Python integers, so they
  may be negative and are not bounded.
\<close>

datatype gate = CNOT int int | RZ real int

type_synonym circuit = "gate list"

type_synonym matrix = "complex list list"

subsection \<open>Arrays\<close>

text \<open>\<open>np.eye(dim, dtype=np.complex128)\<close>\<close>

definition eye :: "nat \<Rightarrow> matrix" where
  "eye d = map (\<lambda>r. map (\<lambda>c. if r = c then 1 else 0) [0..<d]) [0..<d]"

text \<open>
  The assignment \<open>M[r, c] = v\<close> with non-negative indices. It replaces one entry; outside
  the array it raises \<open>OverflowError\<close> for an index of \<open>2 ^ 63\<close> or more, which does not fit
  a C long, and \<open>IndexError\<close> otherwise. (numpy converts the indices before it compares
  them with the shape; an array that exists has fewer than \<open>2 ^ 63\<close> rows, so the order
  of the two tests makes no difference.)
\<close>

definition setitem :: "matrix \<Rightarrow> nat \<Rightarrow> nat \<Rightarrow> complex \<Rightarrow> error + matrix" where
  "setitem M r c v =
     (if r < length M \<and> c < length (M ! r) then Inr (M[r := (M ! r)[c := v]])
      else if 2 ^ 63 \<le> r \<or> 2 ^ 63 \<le> c then Inl OverflowError
      else Inl IndexError)"

text \<open>
  The product \<open>A @ B\<close> of two \<open>dim \<times> dim\<close> arrays. Every array the evaluator multiplies
  is made by \<open>np.eye(dim)\<close> for the same \<open>dim\<close>, so the shape check of \<open>@\<close> never fails
  and the dimension is read off the left operand.
\<close>

definition matmul :: "matrix \<Rightarrow> matrix \<Rightarrow> matrix" where
  "matmul A B =
     map (\<lambda>r. map (\<lambda>c. sum_list (map (\<lambda>k. A ! r ! k * B ! k ! c) [0..<length A]))
                [0..<length A])
         [0..<length A]"

text \<open>\<open>M.conj().T\<close>, the conjugate transpose of a square array.\<close>

definition dagger :: "matrix \<Rightarrow> matrix" where
  "dagger M = map (\<lambda>r. map (\<lambda>c. cnj (M ! c ! r)) [0..<length M]) [0..<length M]"

text \<open>The product \<open>M @ v\<close> of a square array and a state vector.\<close>

definition matvec :: "matrix \<Rightarrow> complex list \<Rightarrow> complex list" where
  "matvec M v = map (\<lambda>r. sum_list (map (\<lambda>k. M ! r ! k * v ! k) [0..<length M])) [0..<length M]"

subsection \<open>Python's shifts and for loops\<close>

text \<open>\<open>i >> k\<close> and \<open>i << k\<close> on Python integers with \<open>i \<ge> 0\<close>.\<close>

definition rshift :: "nat \<Rightarrow> int \<Rightarrow> error + nat" where
  "rshift i k = (if k < 0 then Inl ValueError else Inr (drop_bit (nat k) i))"

definition lshift :: "nat \<Rightarrow> int \<Rightarrow> error + nat" where
  "lshift i k = (if k < 0 then Inl ValueError else Inr (push_bit (nat k) i))"

text \<open>
  \<open>for x in xs: body\<close> over a state \<open>s\<close>: the loop stops at the first exception.
\<close>

fun for_loop :: "'a list \<Rightarrow> ('a \<Rightarrow> 's \<Rightarrow> error + 's) \<Rightarrow> 's \<Rightarrow> error + 's" where
  "for_loop [] body s = Inr s"
| "for_loop (x # xs) body s =
     (case body x s of Inl e \<Rightarrow> Inl e | Inr s' \<Rightarrow> for_loop xs body s')"

subsection \<open>The evaluator\<close>

text \<open>
  The body of the loop that builds the CNOT matrix (lines 39 to 44):
  \<^verbatim>\<open>if (i >> control) & 1: j = i ^ (1 << target); cnot[i, i] = 0; cnot[j, i] = 1\<close>
\<close>

definition cnot_body :: "int \<Rightarrow> int \<Rightarrow> nat \<Rightarrow> matrix \<Rightarrow> error + matrix" where
  "cnot_body control target i cnot =
     (case rshift i control of
        Inl e \<Rightarrow> Inl e
      | Inr s \<Rightarrow>
          if and s 1 \<noteq> 0 then
            (case lshift 1 target of
               Inl e \<Rightarrow> Inl e
             | Inr m \<Rightarrow>
                 (let j = xor i m in
                  case setitem cnot i i 0 of
                    Inl e \<Rightarrow> Inl e
                  | Inr cnot' \<Rightarrow> setitem cnot' j i 1))
          else Inr cnot)"

definition cnot_matrix :: "nat \<Rightarrow> int \<Rightarrow> int \<Rightarrow> error + matrix" where
  "cnot_matrix d control target = for_loop [0..<d] (cnot_body control target) (eye d)"

text \<open>
  The body of the loop that builds the RZ matrix (lines 51 to 55):
  \<^verbatim>\<open>if (i >> qubit) & 1: rz[i, i] = np.exp(-1j * angle / 2)
  else: rz[i, i] = np.exp(1j * angle / 2)\<close>
\<close>

definition rz_body :: "real \<Rightarrow> int \<Rightarrow> nat \<Rightarrow> matrix \<Rightarrow> error + matrix" where
  "rz_body angle qubit i rz =
     (case rshift i qubit of
        Inl e \<Rightarrow> Inl e
      | Inr s \<Rightarrow>
          if and s 1 \<noteq> 0 then setitem rz i i (exp (- \<i> * complex_of_real angle / 2))
          else setitem rz i i (exp (\<i> * complex_of_real angle / 2)))"

definition rz_matrix :: "nat \<Rightarrow> real \<Rightarrow> int \<Rightarrow> error + matrix" where
  "rz_matrix d angle qubit = for_loop [0..<d] (rz_body angle qubit) (eye d)"

text \<open>The matrix of one gate, as the loop body of the evaluator builds it.\<close>

fun gate_matrix :: "nat \<Rightarrow> gate \<Rightarrow> error + matrix" where
  "gate_matrix d (CNOT control target) = cnot_matrix d control target"
| "gate_matrix d (RZ angle qubit) = rz_matrix d angle qubit"

text \<open>One round of the loop over the circuit: \<open>matrix = gate @ matrix\<close>.\<close>

definition gate_step :: "nat \<Rightarrow> gate \<Rightarrow> matrix \<Rightarrow> error + matrix" where
  "gate_step d g matrix =
     (case gate_matrix d g of Inl e \<Rightarrow> Inl e | Inr G \<Rightarrow> Inr (matmul G matrix))"

definition gates_to_matrix :: "circuit \<Rightarrow> nat \<Rightarrow> error + matrix" where
  "gates_to_matrix circuit num_qubits =
     (let d = 2 ^ num_qubits in for_loop circuit (gate_step d) (eye d))"

subsection \<open>The inverse circuit\<close>

text \<open>
  Lines 111 to 116: the gate list is reversed, then the angle of every RZ gate is negated
  and every CNOT gate is kept.
\<close>

fun negate_gate :: "gate \<Rightarrow> gate" where
  "negate_gate (CNOT control target) = CNOT control target"
| "negate_gate (RZ angle qubit) = RZ (- angle) qubit"

definition V_dagger_circuit :: "circuit \<Rightarrow> circuit" where
  "V_dagger_circuit V_circuit = map negate_gate (rev V_circuit)"

subsection \<open>Well-formed gates and unitarity\<close>

text \<open>
  The data model of the specification: a qubit index lies in \<open>[0, n)\<close>, and the control
  and the target of a CNOT gate are distinct.
\<close>

fun well_formed :: "nat \<Rightarrow> gate \<Rightarrow> bool" where
  "well_formed n (CNOT control target) =
     (0 \<le> control \<and> control < int n \<and> 0 \<le> target \<and> target < int n \<and> control \<noteq> target)"
| "well_formed n (RZ angle qubit) = (0 \<le> qubit \<and> qubit < int n)"


subsection \<open>Matrices given by their entries\<close>

text \<open>
  The \<open>d \<times> d\<close> array with entry \<open>f r c\<close> in row \<open>r\<close> and column \<open>c\<close>, and the
  test that an array has shape \<open>(d, d)\<close>. Both serve to state what the loops of the
  evaluator compute.
\<close>

definition mk :: "nat \<Rightarrow> (nat \<Rightarrow> nat \<Rightarrow> complex) \<Rightarrow> matrix" where
  "mk d f = map (\<lambda>r. map (\<lambda>c. f r c) [0..<d]) [0..<d]"

definition sq :: "nat \<Rightarrow> matrix \<Rightarrow> bool" where
  "sq d M = (length M = d \<and> list_all (\<lambda>row. length row = d) M)"

text \<open>
  The entries of the two gate matrices: a CNOT column with the control bit set has its
  single 1 in the row with the target bit flipped; an RZ matrix is diagonal.
\<close>

definition cnot_fun :: "nat \<Rightarrow> nat \<Rightarrow> nat \<Rightarrow> nat \<Rightarrow> complex" where
  "cnot_fun c t row col =
     (if bit col c then (if row = xor col (2 ^ t) then 1 else 0)
      else (if row = col then 1 else 0))"

definition rz_fun :: "real \<Rightarrow> nat \<Rightarrow> nat \<Rightarrow> nat \<Rightarrow> complex" where
  "rz_fun angle q row col =
     (if row = col then
        (if bit col q then exp (- \<i> * complex_of_real angle / 2)
         else exp (\<i> * complex_of_real angle / 2))
      else 0)"

fun gate_fun :: "gate \<Rightarrow> nat \<Rightarrow> nat \<Rightarrow> complex" where
  "gate_fun (CNOT control target) = cnot_fun (nat control) (nat target)"
| "gate_fun (RZ angle qubit) = rz_fun angle (nat qubit)"

subsection \<open>Products of gate matrices\<close>

text \<open>
  The product \<open>A\<^sub>1 \<cdot> (A\<^sub>2 \<cdot> \<dots> (A\<^sub>k \<cdot> I))\<close> of a list of matrices, and the state
  reached from \<open>v\<close> by applying the matrices of a list one after the other, the head of
  the list first.
\<close>

fun mat_prod :: "nat \<Rightarrow> matrix list \<Rightarrow> matrix" where
  "mat_prod d [] = eye d"
| "mat_prod d (A # As) = matmul A (mat_prod d As)"

fun apply_gates :: "matrix list \<Rightarrow> complex list \<Rightarrow> complex list" where
  "apply_gates [] v = v"
| "apply_gates (G # Gs) v = apply_gates Gs (matvec G v)"

subsection \<open>Gates the evaluator accepts and gates it rejects\<close>


text \<open>
  The gates on which the evaluator raises: a negative control or qubit index makes the
  first shift fail; a CNOT with its control in \<open>[0, n)\<close> reaches the target, and fails
  when the target is negative or at least \<open>n\<close>.
\<close>

fun raises :: "nat \<Rightarrow> gate \<Rightarrow> bool" where
  "raises n (CNOT control target) =
     (control < 0 \<or> (control < int n \<and> (target < 0 \<or> int n \<le> target)))"
| "raises n (RZ angle qubit) = (qubit < 0)"

subsection \<open>Permutation matrices and diagonal matrices\<close>

text \<open>
  The index map of a CNOT gate, the permutation matrix of an index map, the diagonal
  matrix of a vector, and the index map of a list of CNOT gates with the controls \<open>bs\<close>
  and the common target \<open>q\<close>.
\<close>

definition cnot_flip :: "nat \<Rightarrow> nat \<Rightarrow> nat \<Rightarrow> nat" where
  "cnot_flip c t x = (if bit x c then xor x (2 ^ t) else x)"

definition pm :: "nat \<Rightarrow> (nat \<Rightarrow> nat) \<Rightarrow> matrix" where
  "pm d p = mk d (\<lambda>r c. if r = p c then 1 else 0)"

definition dg :: "nat \<Rightarrow> (nat \<Rightarrow> complex) \<Rightarrow> matrix" where
  "dg d w = mk d (\<lambda>r c. if r = c then w c else 0)"

definition fan_in :: "nat list \<Rightarrow> nat \<Rightarrow> nat \<Rightarrow> nat" where
  "fan_in bs q x = fold (\<lambda>b y. cnot_flip b q y) bs x"

section \<open>The verification driver\<close>

text \<open>
  Lines 124 to 131 of the script compare the original matrix with the reconstructed one:
  \<^verbatim>\<open>difference = np.max(np.abs(U_original_np - U_reconstructed))
  relative_error = difference / np.max(np.abs(U_original_np))
  is_accurate = difference < 1e-6\<close>
  Both arrays have the same shape. \<open>np.max\<close> of an array without elements raises
  \<open>ValueError\<close>. A division of numpy floats by zero does not raise: it returns \<open>inf\<close> or
  \<open>nan\<close>, which are not real numbers, so the quotient is \<open>None\<close> then.
\<close>

definition np_divide :: "real \<Rightarrow> real \<Rightarrow> real option" where
  "np_divide a b = (if b = 0 then None else Some (a / b))"

definition np_sub :: "matrix \<Rightarrow> matrix \<Rightarrow> matrix" where
  "np_sub A B = map (\<lambda>(ra, rb). map (\<lambda>(a, b). a - b) (zip ra rb)) (zip A B)"

definition np_abs :: "matrix \<Rightarrow> real list list" where
  "np_abs M = map (map cmod) M"

definition np_max :: "real list list \<Rightarrow> error + real" where
  "np_max M = (case concat M of [] \<Rightarrow> Inl ValueError | x # xs \<Rightarrow> Inr (fold max xs x))"

definition difference :: "matrix \<Rightarrow> matrix \<Rightarrow> error + real" where
  "difference U_original U_reconstructed = np_max (np_abs (np_sub U_original U_reconstructed))"

definition relative_error :: "matrix \<Rightarrow> matrix \<Rightarrow> error + real option" where
  "relative_error U_original U_reconstructed =
     (case difference U_original U_reconstructed of
        Inl e \<Rightarrow> Inl e
      | Inr diff \<Rightarrow>
          (case np_max (np_abs U_original) of
             Inl e \<Rightarrow> Inl e
           | Inr m \<Rightarrow> Inr (np_divide diff m)))"

definition is_accurate :: "matrix \<Rightarrow> matrix \<Rightarrow> error + bool" where
  "is_accurate U_original U_reconstructed =
     (case difference U_original U_reconstructed of
        Inl e \<Rightarrow> Inl e
      | Inr diff \<Rightarrow> Inr (diff < 1 / 10 ^ 6))"


section \<open>The synthesizer for diagonal matrices\<close>

text \<open>
  Modelled from the spec: the synthesizer \<open>build_optimal_walsh_circuit\<close> is imported by
  the script from \<open>walsh_circuit_decomposition\<close>, which is not among the sources. The
  definitions below follow section 4.3 of the specification for a diagonal input: the
  vector of the phase angles of the diagonal is expanded in the Walsh basis, every
  non-empty subset of qubits contributes one phase rotation on a designated qubit of the
  subset, between CNOT gates that route the parity of the subset onto that qubit and
  their mirror image, and the term of the empty subset (the global phase) is dropped.
  The dense case and the error checks of the synthesizer are not modelled.
\<close>

text \<open>
  Modelled from the spec: the qubits of the subset with the bit mask \<open>s\<close>, in increasing
  order.
\<close>

definition subset_qubits :: "nat \<Rightarrow> nat \<Rightarrow> nat list" where
  "subset_qubits n s = filter (bit s) [0..<n]"

text \<open>
  Modelled from the spec: the Walsh function of the subset \<open>s\<close>, the parity of the bits of
  the basis index \<open>x\<close> in the subset, as a sign.
\<close>

definition walsh :: "nat \<Rightarrow> nat \<Rightarrow> nat \<Rightarrow> real" where
  "walsh n s x = (- 1) ^ length (filter (bit x) (subset_qubits n s))"

text \<open>
  Modelled from the spec: the coefficient of the Walsh function of \<open>s\<close> in the expansion of
  the vector of phase angles.
\<close>

definition walsh_coefficient :: "nat \<Rightarrow> real list \<Rightarrow> nat \<Rightarrow> real" where
  "walsh_coefficient n phases s =
     sum_list (map (\<lambda>x. phases ! x * walsh n s x) [0..<2 ^ n]) / 2 ^ n"

text \<open>
  Modelled from the spec: the gates of one Walsh coefficient. The first qubit of the
  subset is the designated one; the CNOT gates from the other qubits of the subset put
  the parity of the subset on it, the rotation by twice the coefficient gives the basis
  states of parity 0 the phase \<open>exp (\<i> a)\<close> and those of parity 1 the phase
  \<open>exp (- \<i> a)\<close>, and the mirrored CNOT gates restore the qubit.
\<close>

definition walsh_term :: "nat \<Rightarrow> real list \<Rightarrow> nat \<Rightarrow> circuit" where
  "walsh_term n phases s =
     (case subset_qubits n s of
        [] \<Rightarrow> []
      | q # bs \<Rightarrow>
          map (\<lambda>b. CNOT (int b) (int q)) bs @
          [RZ (2 * walsh_coefficient n phases s) (int q)] @
          map (\<lambda>b. CNOT (int b) (int q)) (rev bs))"

text \<open>
  Modelled from the spec: the number of qubits of a matrix of dimension \<open>2 ^ n\<close>.
\<close>

fun log2 :: "nat \<Rightarrow> nat" where
  "log2 d = (if d < 2 then 0 else Suc (log2 (d div 2)))"

text \<open>
  Modelled from the spec: the synthesizer on a diagonal matrix. The phase angles are the
  arguments of the diagonal entries; the circuit has one term for each of the
  \<open>2 ^ n - 1\<close> non-empty subsets of qubits.
\<close>

definition build_optimal_walsh_circuit :: "matrix \<Rightarrow> circuit" where
  "build_optimal_walsh_circuit D =
     (let n = log2 (length D);
          phases = map (\<lambda>x. Arg (D ! x ! x)) [0..<length D]
      in concat (map (walsh_term n phases) [1..<2 ^ n]))"

subsection \<open>Diagonal unitary matrices and the global phase\<close>

text \<open>
  A diagonal unitary matrix of dimension \<open>2 ^ n\<close> has diagonal entries of modulus 1 and
  zero entries elsewhere. The mean of the phase angles of its diagonal is the Walsh
  coefficient of the empty subset, and \<open>scale k M\<close> multiplies every entry of \<open>M\<close> by \<open>k\<close>.
\<close>

definition diagonal_unitary :: "nat \<Rightarrow> matrix \<Rightarrow> bool" where
  "diagonal_unitary n D =
     (sq (2 ^ n) D \<and>
      (\<forall>r<2 ^ n. \<forall>c<2 ^ n. if r = c then cmod (D ! r ! c) = 1 else D ! r ! c = 0))"

definition mean_phase :: "matrix \<Rightarrow> real" where
  "mean_phase D = sum_list (map (\<lambda>x. Arg (D ! x ! x)) [0..<length D]) / real (length D)"

definition scale :: "complex \<Rightarrow> matrix \<Rightarrow> matrix" where
  "scale k M = map (map (\<lambda>z. k * z)) M"

section \<open>Proof infrastructure\<close>

subsection \<open>Matrices given by their entries\<close>

lemma sq_mk [simp]: "sq d (mk d f)"
  by (simp add: sq_def mk_def list_all_iff)

lemma length_mk [simp]: "length (mk d f) = d"
  by (simp add: mk_def)

lemma mk_nth [simp]: "r < d \<Longrightarrow> c < d \<Longrightarrow> mk d f ! r ! c = f r c"
  by (simp add: mk_def)

lemma sq_length: "sq d M \<Longrightarrow> length M = d"
  by (simp add: sq_def)

lemma sq_row: "sq d M \<Longrightarrow> r < d \<Longrightarrow> length (M ! r) = d"
  by (simp add: sq_def list_all_length)

lemma mk_of_sq: "sq d M \<Longrightarrow> mk d (\<lambda>r c. M ! r ! c) = M"
  by (auto simp: mk_def sq_def list_all_length intro!: nth_equalityI)

lemma mk_cong: "(\<And>r c. r < d \<Longrightarrow> c < d \<Longrightarrow> f r c = g r c) \<Longrightarrow> mk d f = mk d g"
  by (simp add: mk_def)

lemma mk_eq_iff: "mk d f = mk d g \<longleftrightarrow> (\<forall>r<d. \<forall>c<d. f r c = g r c)"
proof
  assume "mk d f = mk d g"
  show "\<forall>r<d. \<forall>c<d. f r c = g r c"
  proof (intro allI impI)
    fix r c assume rc: "r < d" "c < d"
    have "f r c = mk d f ! r ! c" using rc by simp
    also have "\<dots> = mk d g ! r ! c" using \<open>mk d f = mk d g\<close> by simp
    also have "\<dots> = g r c" using rc by simp
    finally show "f r c = g r c" .
  qed
next
  assume "\<forall>r<d. \<forall>c<d. f r c = g r c"
  then show "mk d f = mk d g" by (intro mk_cong) simp
qed

lemma eye_mk: "eye d = mk d (\<lambda>r c. if r = c then 1 else 0)"
  by (simp add: eye_def mk_def)

lemma matmul_mk: "matmul A B = mk (length A) (\<lambda>r c. \<Sum>k<length A. A ! r ! k * B ! k ! c)"
  by (simp add: matmul_def mk_def interv_sum_list_conv_sum_set_nat atLeast0LessThan)

lemma dagger_mk: "dagger M = mk (length M) (\<lambda>r c. cnj (M ! c ! r))"
  by (simp add: dagger_def mk_def)

lemma matmul_mk_mk:
  "matmul (mk d f) (mk d g) = mk d (\<lambda>r c. \<Sum>k<d. f r k * g k c)"
  by (simp add: matmul_mk mk_eq_iff)

lemma setitem_mk:
  "r < d \<Longrightarrow> c < d \<Longrightarrow> setitem (mk d f) r c v = Inr (mk d (\<lambda>a b. if a = r \<and> b = c then v else f a b))"
  by (auto simp: setitem_def mk_def nth_list_update intro!: nth_equalityI)

lemma setitem_mk_out:
  "d \<le> r \<Longrightarrow>
   setitem (mk d f) r c v =
     Inl (if 2 ^ 63 \<le> r \<or> 2 ^ 63 \<le> c then OverflowError else IndexError)"
  by (auto simp: setitem_def)

subsection \<open>Loops and the bits of basis indices\<close>

lemma for_loop_append:
  "for_loop (xs @ ys) body s = (case for_loop xs body s of Inl e \<Rightarrow> Inl e | Inr s' \<Rightarrow> for_loop ys body s')"
  by (induction xs arbitrary: s) (auto split: sum.splits)

lemma not_bit_lt: "i < 2 ^ n \<Longrightarrow> n \<le> c \<Longrightarrow> \<not> bit (i::nat) c"
proof -
  assume a: "i < 2 ^ n" "n \<le> c"
  have "(2::nat) ^ n \<le> 2 ^ c" using a(2) by (simp add: power_increasing)
  then have "i < 2 ^ c" using a(1) by linarith
  then show ?thesis by (simp add: bit_iff_odd)
qed

lemma bit_ge: "bit (m::nat) t \<Longrightarrow> 2 ^ t \<le> m"
  using not_bit_lt [of m t t] by (cases "m < 2 ^ t") auto

lemma xor_pow_lt: "i < 2 ^ n \<Longrightarrow> t < n \<Longrightarrow> xor (i::nat) (2 ^ t) < 2 ^ n"
proof -
  assume a: "i < 2 ^ n" "t < n"
  have "take_bit n (xor i (2 ^ t)) = xor i (2 ^ t)"
    using a by (simp add: take_bit_xor take_bit_nat_eq_self take_bit_of_exp)
  then show ?thesis using take_bit_nat_eq_self_iff by blast
qed

lemma xor_pow_neq: "xor (i::nat) (2 ^ t) \<noteq> i"
  by (metis power_not_zero xor.assoc xor.left_neutral xor_self_eq zero_neq_numeral)

lemma xor_pow_ge: "i < 2 ^ n \<Longrightarrow> n \<le> t \<Longrightarrow> 2 ^ n \<le> xor (i::nat) (2 ^ t)"
proof -
  assume a: "i < 2 ^ n" "n \<le> t"
  have "\<not> bit i t" using a by (rule not_bit_lt)
  then have "bit (xor i (2 ^ t)) t" by (simp add: bit_xor_iff bit_exp_iff)
  then have "2 ^ t \<le> xor i (2 ^ t)" by (rule bit_ge)
  moreover have "(2::nat) ^ n \<le> 2 ^ t" using a(2) by (simp add: power_increasing)
  ultimately show ?thesis by linarith
qed

lemma xor_pow_invol: "xor (xor (i::nat) (2 ^ t)) (2 ^ t) = i"
  by (metis xor.assoc xor_self_eq xor.right_neutral)

lemma bit_xor_pow: "bit (xor (i::nat) (2 ^ t)) c = (if c = t then \<not> bit i c else bit i c)"
  by (auto simp: bit_xor_iff bit_exp_iff)

lemma bit_pow_self: "bit ((2::nat) ^ c) c"
  by (simp add: bit_exp_iff)

lemma bit_test1: "(drop_bit k (i::nat) mod 2 = Suc 0) = bit i k"
  by (simp add: bit_iff_odd_drop_bit odd_iff_mod_2_eq_one)

lemma bit_test0: "(drop_bit k (i::nat) mod 2 = 0) = (\<not> bit i k)"
  by (simp add: bit_iff_odd_drop_bit even_iff_mod_2_eq_zero)

lemma for_loop_snoc:
  "for_loop (xs @ [x]) body s = (case for_loop xs body s of Inl e \<Rightarrow> Inl e | Inr s' \<Rightarrow> body x s')"
  by (simp add: for_loop_append split: sum.splits)

lemma for_loop_skip:
  "(\<And>x. x \<in> set xs \<Longrightarrow> body x s = Inr s) \<Longrightarrow> for_loop xs body s = Inr s"
  by (induction xs) auto

lemma for_loop_fail:
  assumes "for_loop xs body s = Inr s'" and "body x s' = Inl e"
  shows "for_loop (xs @ x # ys) body s = Inl e"
  using assms by (simp add: for_loop_append)

subsection \<open>The loop that builds a CNOT matrix\<close>

lemma cnot_body_skip:
  "0 \<le> control \<Longrightarrow> \<not> bit i (nat control) \<Longrightarrow> cnot_body control target i M = Inr M"
  by (simp add: cnot_body_def rshift_def bit_test1 bit_test0)

lemma cnot_body_neg: "control < 0 \<Longrightarrow> cnot_body control target i M = Inl ValueError"
  by (simp add: cnot_body_def rshift_def)

lemma cnot_body_neg_target:
  "0 \<le> control \<Longrightarrow> bit i (nat control) \<Longrightarrow> target < 0 \<Longrightarrow>
   cnot_body control target i M = Inl ValueError"
  by (simp add: cnot_body_def rshift_def lshift_def bit_test1 bit_test0)

lemma cnot_body_set:
  assumes "0 \<le> control" "bit i (nat control)" "0 \<le> target" "nat target < n" "i < 2 ^ n"
  shows "cnot_body control target i (mk (2 ^ n) f) =
         Inr (mk (2 ^ n) (\<lambda>row col. if row = xor i (2 ^ nat target) \<and> col = i then 1
                                  else if row = i \<and> col = i then 0 else f row col))"
proof -
  have j: "xor i (2 ^ nat target) < 2 ^ n" using assms by (simp add: xor_pow_lt)
  show ?thesis
    using assms j
    by (simp add: cnot_body_def rshift_def lshift_def bit_test1 bit_test0 push_bit_of_1 setitem_mk)
qed

lemma cnot_body_out:
  assumes "0 \<le> control" "bit i (nat control)" "0 \<le> target" "n \<le> nat target" "i < 2 ^ n"
  shows "cnot_body control target i (mk (2 ^ n) f) =
         Inl (if 63 \<le> nat target then OverflowError else IndexError)"
proof -
  let ?j = "xor i (2 ^ nat target)"
  have j: "2 ^ n \<le> ?j" using assms by (simp add: xor_pow_ge)
  have it: "i < 2 ^ Suc (nat target)"
    using assms(4,5) by (meson le_SucI less_le_trans one_le_numeral power_increasing)
  have kind: "(2 ^ 63 \<le> ?j \<or> (2::nat) ^ 63 \<le> i) = (63 \<le> nat target)"
  proof (cases "63 \<le> nat target")
    case True
    have "(2::nat) ^ 63 \<le> 2 ^ nat target" using True by (intro power_increasing) simp_all
    moreover have "2 ^ nat target \<le> ?j"
      by (rule bit_ge) (simp add: bit_xor_pow not_bit_lt [OF assms(5) assms(4)])
    ultimately show ?thesis using True by simp
  next
    case False
    then have "Suc (nat target) \<le> 63" by simp
    then have le: "(2::nat) ^ Suc (nat target) \<le> 2 ^ 63"
      by (intro power_increasing) simp_all
    have "?j < 2 ^ Suc (nat target)" by (rule xor_pow_lt [OF it]) simp
    then show ?thesis using False le it by simp
  qed
  show ?thesis
    using assms j kind
    by (simp add: cnot_body_def rshift_def lshift_def bit_test1 bit_test0 push_bit_of_1
        setitem_mk setitem_mk_out)
qed

lemma cnot_loop:
  assumes "0 \<le> control" "0 \<le> target" "nat target < n"
  shows "k \<le> 2 ^ n \<Longrightarrow>
         for_loop [0..<k] (cnot_body control target) (eye (2 ^ n)) =
         Inr (mk (2 ^ n) (\<lambda>row col. if col < k then cnot_fun (nat control) (nat target) row col
                                   else if row = col then 1 else 0))"
proof (induction k)
  case 0
  show ?case by (simp add: eye_mk)
next
  case (Suc k)
  then have k: "k < 2 ^ n" by simp
  let ?f = "\<lambda>row col. if col < k then cnot_fun (nat control) (nat target) row col
                      else if row = col then (1::complex) else 0"
  have IH: "for_loop [0..<k] (cnot_body control target) (eye (2 ^ n)) = Inr (mk (2 ^ n) ?f)"
    using Suc by simp
  have step: "cnot_body control target k (mk (2 ^ n) ?f) =
        Inr (mk (2 ^ n) (\<lambda>row col. if col < Suc k then cnot_fun (nat control) (nat target) row col
                                   else if row = col then 1 else 0))"
  proof (cases "bit k (nat control)")
    case True
    show ?thesis
      unfolding cnot_body_set [OF assms(1) True assms(2) assms(3) k]
      by (auto simp: mk_eq_iff cnot_fun_def less_Suc_eq True xor_pow_neq)
  next
    case False
    show ?thesis
      unfolding cnot_body_skip [OF assms(1) False]
      by (auto simp: mk_eq_iff cnot_fun_def less_Suc_eq False)
  qed
  show ?case
    by (simp add: for_loop_snoc IH step del: upt_Suc add: upt_Suc_append)
qed

lemma cnot_matrix_ok:
  assumes "0 \<le> control" "0 \<le> target" "nat target < n"
  shows "cnot_matrix (2 ^ n) control target = Inr (mk (2 ^ n) (cnot_fun (nat control) (nat target)))"
  using cnot_loop [OF assms, of "2 ^ n"] by (simp add: cnot_matrix_def mk_eq_iff)

lemma cnot_matrix_neg: "control < 0 \<Longrightarrow> cnot_matrix (2 ^ n) control target = Inl ValueError"
proof -
  assume a: "control < 0"
  have "[0..<2 ^ n] = 0 # [1..<2 ^ n]" by (simp add: upt_conv_Cons)
  then show ?thesis by (simp add: cnot_matrix_def cnot_body_neg a)
qed

lemma cnot_matrix_idle:
  assumes "0 \<le> control" "n \<le> nat control"
  shows "cnot_matrix (2 ^ n) control target = Inr (eye (2 ^ n))"
  unfolding cnot_matrix_def
  by (rule for_loop_skip) (simp add: cnot_body_skip assms not_bit_lt [OF _ assms(2)])

lemma upt_split: "i < d \<Longrightarrow> [0..<d] = [0..<i] @ i # [Suc i..<d]"
  by (metis le_add1 less_imp_add_positive upt_add_eq_append upt_conv_Cons plus_nat.add_0 less_imp_le_nat le_add_diff_inverse)

lemma cnot_prefix:
  assumes "0 \<le> control"
  shows "for_loop [0..<2 ^ nat control] (cnot_body control target) M = Inr M"
  by (rule for_loop_skip) (simp add: cnot_body_skip assms not_bit_lt [of _ "nat control"])

lemma cnot_matrix_neg_target:
  assumes "0 \<le> control" "nat control < n" "target < 0"
  shows "cnot_matrix (2 ^ n) control target = Inl ValueError"
proof -
  have lt: "(2::nat) ^ nat control < 2 ^ n" using assms(2) by simp
  show ?thesis
    unfolding cnot_matrix_def upt_split [OF lt]
    by (rule for_loop_fail [OF cnot_prefix [OF assms(1)]])
       (simp add: cnot_body_neg_target assms bit_pow_self)
qed

lemma cnot_matrix_out:
  assumes "0 \<le> control" "nat control < n" "0 \<le> target" "n \<le> nat target"
  shows "cnot_matrix (2 ^ n) control target =
         Inl (if 63 \<le> nat target then OverflowError else IndexError)"
proof -
  have lt: "(2::nat) ^ nat control < 2 ^ n" using assms(2) by simp
  show ?thesis
    unfolding cnot_matrix_def upt_split [OF lt] eye_mk
    by (rule for_loop_fail [OF cnot_prefix [OF assms(1)]])
       (simp add: cnot_body_out [OF assms(1) bit_pow_self assms(3) assms(4) lt])
qed

subsection \<open>The loop that builds an RZ matrix\<close>

lemma phase_pos: "exp (\<i> * complex_of_real a / 2) = cis (a / 2)"
  by (simp add: cis_conv_exp)

lemma phase_neg: "exp (- (\<i> * complex_of_real a / 2)) = cis (- (a / 2))"
  by (simp add: cis_conv_exp)

lemma rz_fun_cis:
  "rz_fun angle q row col = (if row = col then (if bit col q then cis (- (angle / 2)) else cis (angle / 2)) else 0)"
  by (simp add: rz_fun_def phase_pos phase_neg)

lemma rz_body_neg: "qubit < 0 \<Longrightarrow> rz_body angle qubit i M = Inl ValueError"
  by (simp add: rz_body_def rshift_def)

lemma rz_body_set:
  assumes "0 \<le> qubit" "i < d"
  shows "rz_body angle qubit i (mk d f) =
         Inr (mk d (\<lambda>row col. if row = i \<and> col = i then rz_fun angle (nat qubit) i i
                              else f row col))"
  using assms
  by (auto simp: rz_body_def rshift_def bit_test1 bit_test0 setitem_mk rz_fun_def mk_eq_iff)

lemma rz_loop:
  assumes "0 \<le> qubit"
  shows "k \<le> d \<Longrightarrow>
         for_loop [0..<k] (rz_body angle qubit) (eye d) =
         Inr (mk d (\<lambda>row col. if col < k then rz_fun angle (nat qubit) row col
                              else if row = col then 1 else 0))"
proof (induction k)
  case 0
  show ?case by (simp add: eye_mk)
next
  case (Suc k)
  then have k: "k < d" by simp
  let ?f = "\<lambda>row col. if col < k then rz_fun angle (nat qubit) row col
                      else if row = col then (1::complex) else 0"
  have IH: "for_loop [0..<k] (rz_body angle qubit) (eye d) = Inr (mk d ?f)"
    using Suc by simp
  have step: "rz_body angle qubit k (mk d ?f) =
        Inr (mk d (\<lambda>row col. if col < Suc k then rz_fun angle (nat qubit) row col
                              else if row = col then 1 else 0))"
    unfolding rz_body_set [OF assms k]
    by (auto simp: mk_eq_iff less_Suc_eq rz_fun_def)
  show ?case
    by (simp add: for_loop_snoc IH step del: upt_Suc add: upt_Suc_append)
qed

lemma rz_matrix_ok:
  assumes "0 \<le> qubit"
  shows "rz_matrix d angle qubit = Inr (mk d (rz_fun angle (nat qubit)))"
  using rz_loop [OF assms, of d d] by (simp add: rz_matrix_def mk_eq_iff)

lemma rz_matrix_neg: "qubit < 0 \<Longrightarrow> rz_matrix (2 ^ n) angle qubit = Inl ValueError"
proof -
  assume a: "qubit < 0"
  have "[0..<2 ^ n] = 0 # [1..<2 ^ n]" by (simp add: upt_conv_Cons)
  then show ?thesis by (simp add: rz_matrix_def rz_body_neg a)
qed

subsection \<open>Matrix algebra\<close>

lemma matmul_assoc_mk:
  "matmul (matmul (mk d a) (mk d b)) (mk d c) = matmul (mk d a) (matmul (mk d b) (mk d c))"
proof -
  have "(\<Sum>k<d. (\<Sum>l<d. a r l * b l k) * c k j) = (\<Sum>l<d. a r l * (\<Sum>k<d. b l k * c k j))" for r j
  proof -
    have "(\<Sum>k<d. (\<Sum>l<d. a r l * b l k) * c k j) = (\<Sum>k<d. \<Sum>l<d. a r l * b l k * c k j)"
      by (simp add: sum_distrib_right)
    also have "\<dots> = (\<Sum>l<d. \<Sum>k<d. a r l * b l k * c k j)"
      by (rule sum.swap)
    also have "\<dots> = (\<Sum>l<d. a r l * (\<Sum>k<d. b l k * c k j))"
      by (simp add: sum_distrib_left mult.assoc)
    finally show ?thesis .
  qed
  then show ?thesis by (simp add: matmul_mk_mk mk_eq_iff)
qed

lemma matmul_assoc:
  assumes "sq d A" "sq d B" "sq d C"
  shows "matmul (matmul A B) C = matmul A (matmul B C)"
  using matmul_assoc_mk [of d "\<lambda>r c. A ! r ! c" "\<lambda>r c. B ! r ! c" "\<lambda>r c. C ! r ! c"]
  by (simp add: mk_of_sq assms)

lemma sq_matmul: "sq d A \<Longrightarrow> sq d (matmul A B)"
  by (simp add: matmul_mk sq_length)

lemma sq_eye [simp]: "sq d (eye d)"
  by (simp add: eye_mk)


lemma sum_pick:
  assumes "r < (d::nat)"
  shows "(\<Sum>k<d. if k = r then f k else 0) = (f r :: complex)"
  using assms by (simp add: sum.delta)

lemma sum_delta_l: "r < (d::nat) \<Longrightarrow> (\<Sum>k<d. (if r = k then 1 else 0) * f k) = (f r :: complex)"
proof -
  assume r: "r < d"
  have "(\<Sum>k<d. (if r = k then 1 else 0) * f k) = (\<Sum>k<d. if k = r then f k else 0)"
    by (intro sum.cong) auto
  then show ?thesis using r by (simp add: sum_pick)
qed

lemma sum_delta_r: "c < (d::nat) \<Longrightarrow> (\<Sum>k<d. f k * (if k = c then 1 else 0)) = (f c :: complex)"
proof -
  assume c: "c < d"
  have "(\<Sum>k<d. f k * (if k = c then 1 else 0)) = (\<Sum>k<d. if k = c then f k else 0)"
    by (intro sum.cong) auto
  then show ?thesis using c by (simp add: sum_pick)
qed

lemma matmul_eye_left_mk: "matmul (eye d) (mk d a) = mk d a"
  by (simp add: eye_mk matmul_mk_mk mk_eq_iff sum_delta_l)

lemma matmul_eye_right_mk: "matmul (mk d a) (eye d) = mk d a"
  by (simp add: eye_mk matmul_mk_mk mk_eq_iff sum_delta_r)

lemma matmul_eye_left: "sq d A \<Longrightarrow> matmul (eye d) A = A"
  using matmul_eye_left_mk [of d "\<lambda>r c. A ! r ! c"] by (simp add: mk_of_sq)

lemma matmul_eye_right: "sq d A \<Longrightarrow> matmul A (eye d) = A"
  using matmul_eye_right_mk [of d "\<lambda>r c. A ! r ! c"] by (simp add: mk_of_sq)

lemma dagger_mk_mk: "dagger (mk d a) = mk d (\<lambda>r c. cnj (a c r))"
  by (simp add: dagger_mk mk_eq_iff)

lemma dagger_matmul_mk:
  "dagger (matmul (mk d a) (mk d b)) = matmul (dagger (mk d b)) (dagger (mk d a))"
  by (simp add: dagger_mk_mk matmul_mk_mk mk_eq_iff mult.commute)

lemma dagger_matmul:
  assumes "sq d A" "sq d B"
  shows "dagger (matmul A B) = matmul (dagger B) (dagger A)"
  using dagger_matmul_mk [of d "\<lambda>r c. A ! r ! c" "\<lambda>r c. B ! r ! c"]
  by (simp add: mk_of_sq assms)

lemma dagger_eye: "dagger (eye d) = eye d"
  by (simp add: eye_mk dagger_mk_mk mk_eq_iff)

subsection \<open>What the evaluator computes\<close>

lemma cnot_matrix_cases:
  "cnot_matrix (2 ^ n) control target =
     (if control < 0 then Inl ValueError
      else if n \<le> nat control then Inr (eye (2 ^ n))
      else if target < 0 then Inl ValueError
      else if n \<le> nat target
      then Inl (if 63 \<le> nat target then OverflowError else IndexError)
      else Inr (mk (2 ^ n) (cnot_fun (nat control) (nat target))))"
  by (simp add: cnot_matrix_neg cnot_matrix_idle cnot_matrix_neg_target cnot_matrix_out
      cnot_matrix_ok)

lemma rz_matrix_cases:
  "rz_matrix (2 ^ n) angle qubit =
     (if qubit < 0 then Inl ValueError else Inr (mk (2 ^ n) (rz_fun angle (nat qubit))))"
  by (simp add: rz_matrix_neg rz_matrix_ok)

lemma gate_matrix_sq: "gate_matrix (2 ^ n) g = Inr G \<Longrightarrow> sq (2 ^ n) G"
  by (cases g) (auto simp: cnot_matrix_cases rz_matrix_cases split: if_splits)

lemma gate_step_sq: "gate_step (2 ^ n) g A = Inr R \<Longrightarrow> sq (2 ^ n) R"
  by (auto simp: gate_step_def split: sum.splits dest!: gate_matrix_sq intro: sq_matmul)

lemma eval_sq:
  "sq (2 ^ n) A \<Longrightarrow> for_loop c (gate_step (2 ^ n)) A = Inr R \<Longrightarrow> sq (2 ^ n) R"
proof (induction c arbitrary: A)
  case Nil
  then show ?case by simp
next
  case (Cons g c)
  then show ?case by (auto split: sum.splits dest: gate_step_sq)
qed

lemma eval_from:
  "sq (2 ^ n) A \<Longrightarrow>
   for_loop c (gate_step (2 ^ n)) A =
     (case for_loop c (gate_step (2 ^ n)) (eye (2 ^ n)) of
        Inl e \<Rightarrow> Inl e | Inr M \<Rightarrow> Inr (matmul M A))"
proof (induction c arbitrary: A)
  case Nil
  then show ?case by (simp add: matmul_eye_left)
next
  case (Cons g c)
  show ?case
  proof (cases "gate_matrix (2 ^ n) g")
    case (Inl e)
    then show ?thesis by (simp add: gate_step_def)
  next
    case (Inr G)
    have G: "sq (2 ^ n) G" using Inr by (rule gate_matrix_sq)
    have GA: "sq (2 ^ n) (matmul G A)" using G by (rule sq_matmul)
    have l: "for_loop (g # c) (gate_step (2 ^ n)) A = for_loop c (gate_step (2 ^ n)) (matmul G A)"
      by (simp add: gate_step_def Inr)
    have r: "for_loop (g # c) (gate_step (2 ^ n)) (eye (2 ^ n)) = for_loop c (gate_step (2 ^ n)) G"
      by (simp add: gate_step_def Inr matmul_eye_right G)
    show ?thesis
    proof (cases "for_loop c (gate_step (2 ^ n)) (eye (2 ^ n))")
      case (Inl e)
      then show ?thesis unfolding l r by (simp add: Cons.IH [OF GA] Cons.IH [OF G])
    next
      case (Inr M)
      have M: "sq (2 ^ n) M" using eval_sq [OF sq_eye Inr] .
      show ?thesis unfolding l r
        by (simp add: Cons.IH [OF GA] Cons.IH [OF G] Inr matmul_assoc [OF M G Cons.prems])
    qed
  qed
qed

lemma gtm_unfold:
  "gates_to_matrix c n = for_loop c (gate_step (2 ^ n)) (eye (2 ^ n))"
  by (simp add: gates_to_matrix_def Let_def)

lemma gtm_Nil: "gates_to_matrix [] n = Inr (eye (2 ^ n))"
  by (simp add: gtm_unfold)

lemma gtm_sq: "gates_to_matrix c n = Inr M \<Longrightarrow> sq (2 ^ n) M"
  unfolding gtm_unfold by (rule eval_sq [OF sq_eye])

lemma gtm_Cons:
  "gates_to_matrix (g # c) n =
     (case gate_matrix (2 ^ n) g of
        Inl e \<Rightarrow> Inl e
      | Inr G \<Rightarrow> (case gates_to_matrix c n of Inl e \<Rightarrow> Inl e | Inr M \<Rightarrow> Inr (matmul M G)))"
proof (cases "gate_matrix (2 ^ n) g")
  case (Inl e)
  then show ?thesis by (simp add: gtm_unfold gate_step_def)
next
  case (Inr G)
  have G: "sq (2 ^ n) G" using Inr by (rule gate_matrix_sq)
  show ?thesis
    by (simp add: gtm_unfold gate_step_def Inr matmul_eye_right G eval_from [OF G]
        split: sum.splits)
qed

lemma gtm_snoc:
  "gates_to_matrix (c @ [g]) n =
     (case gates_to_matrix c n of
        Inl e \<Rightarrow> Inl e
      | Inr M \<Rightarrow> (case gate_matrix (2 ^ n) g of Inl e \<Rightarrow> Inl e | Inr G \<Rightarrow> Inr (matmul G M)))"
  by (simp add: gtm_unfold for_loop_snoc gate_step_def split: sum.splits)

lemma gtm_append:
  "gates_to_matrix (c1 @ c2) n =
     (case gates_to_matrix c1 n of
        Inl e \<Rightarrow> Inl e
      | Inr A \<Rightarrow> (case gates_to_matrix c2 n of Inl e \<Rightarrow> Inl e | Inr B \<Rightarrow> Inr (matmul B A)))"
proof (cases "gates_to_matrix c1 n")
  case (Inl e)
  then show ?thesis by (simp add: gtm_unfold for_loop_append)
next
  case (Inr A)
  have A: "sq (2 ^ n) A" using Inr by (rule gtm_sq)
  show ?thesis using Inr
    by (simp add: gtm_unfold for_loop_append eval_from [OF A] split: sum.splits)
qed

subsection \<open>Well-formed gates and the inverse circuit\<close>

lemma gate_matrix_wf:
  "well_formed n g \<Longrightarrow> gate_matrix (2 ^ n) g = Inr (mk (2 ^ n) (gate_fun g))"
  by (cases g) (auto simp: cnot_matrix_cases rz_matrix_cases)

lemma well_formed_negate: "well_formed n (negate_gate g) = well_formed n g"
  by (cases g) auto

lemma cnot_fun_sym:
  assumes "c \<noteq> t"
  shows "cnot_fun c t row col = cnot_fun c t col row"
proof -
  have inv: "row = xor col (2 ^ t) \<longleftrightarrow> col = xor row (2 ^ t)"
    by (metis xor_pow_invol)
  have b: "row = xor col (2 ^ t) \<Longrightarrow> bit row c = bit col c"
    using assms by (simp add: bit_xor_pow)
  have b': "col = xor row (2 ^ t) \<Longrightarrow> bit row c = bit col c"
    using assms by (simp add: bit_xor_pow)
  show ?thesis
    using inv b b' by (auto simp: cnot_fun_def)
qed

lemma dagger_cnot:
  "c \<noteq> t \<Longrightarrow> dagger (mk d (cnot_fun c t)) = mk d (cnot_fun c t)"
proof -
  assume ct: "c \<noteq> t"
  have "cnj (cnot_fun c t col row) = cnot_fun c t row col" for row col
    unfolding cnot_fun_sym [OF ct, of row col] by (simp add: cnot_fun_def)
  then show ?thesis by (simp add: dagger_mk_mk)
qed

lemma dagger_rz: "dagger (mk d (rz_fun angle q)) = mk d (rz_fun (- angle) q)"
  by (auto simp: dagger_mk_mk mk_eq_iff rz_fun_cis cis_cnj)

lemma gate_matrix_negate:
  "well_formed n g \<Longrightarrow>
   gate_matrix (2 ^ n) (negate_gate g) = Inr (dagger (mk (2 ^ n) (gate_fun g)))"
proof (cases g)
  case (CNOT control target)
  assume wf: "well_formed n g"
  then have "nat control \<noteq> nat target" using CNOT by auto
  then show ?thesis
    using wf CNOT gate_matrix_wf [of n g] by (simp add: dagger_cnot)
next
  case (RZ angle qubit)
  assume wf: "well_formed n g"
  then show ?thesis
    using RZ gate_matrix_wf [of n "negate_gate g"] by (simp add: dagger_rz)
qed

lemma gtm_wf_total:
  "list_all (well_formed n) c \<Longrightarrow> \<exists>M. gates_to_matrix c n = Inr M"
proof (induction c)
  case Nil
  show ?case by (simp add: gtm_Nil)
next
  case (Cons g c)
  then show ?case by (auto simp: gtm_Cons gate_matrix_wf)
qed

lemma inverse_law_aux:
  "list_all (well_formed n) c \<Longrightarrow> gates_to_matrix c n = Inr M \<Longrightarrow>
   gates_to_matrix (V_dagger_circuit c) n = Inr (dagger M)"
proof (induction c arbitrary: M)
  case Nil
  then show ?case by (auto simp: V_dagger_circuit_def gtm_Nil dagger_eye)
next
  case (Cons g c)
  have wfg: "well_formed n g" and wfc: "list_all (well_formed n) c"
    using Cons.prems(1) by simp_all
  obtain M' where M': "gates_to_matrix c n = Inr M'"
    using gtm_wf_total [OF wfc] by blast
  let ?G = "mk (2 ^ n) (gate_fun g)"
  have M: "M = matmul M' ?G"
    using Cons.prems(2) by (simp add: gtm_Cons gate_matrix_wf [OF wfg] M')
  have IH: "gates_to_matrix (V_dagger_circuit c) n = Inr (dagger M')"
    using Cons.IH [OF wfc M'] .
  have "V_dagger_circuit (g # c) = V_dagger_circuit c @ [negate_gate g]"
    by (simp add: V_dagger_circuit_def)
  then have "gates_to_matrix (V_dagger_circuit (g # c)) n = Inr (matmul (dagger ?G) (dagger M'))"
    by (simp add: gtm_snoc IH gate_matrix_negate [OF wfg])
  also have "matmul (dagger ?G) (dagger M') = dagger M"
    unfolding M by (rule dagger_matmul [symmetric, OF gtm_sq [OF M'] sq_mk])
  finally show ?case .
qed

subsection \<open>Single gates\<close>

lemma gtm_single: "gates_to_matrix [g] n = gate_matrix (2 ^ n) g"
proof (cases "gate_matrix (2 ^ n) g")
  case (Inl e)
  then show ?thesis by (simp add: gtm_Cons)
next
  case (Inr G)
  have "sq (2 ^ n) G" using Inr by (rule gate_matrix_sq)
  then show ?thesis by (simp add: gtm_Cons gtm_Nil Inr matmul_eye_left)
qed

lemma flip_bij:
  assumes "c \<noteq> t" "t < n"
  shows "bij_betw (\<lambda>col::nat. if bit col c then xor col (2 ^ t) else col) {..<2 ^ n} {..<2 ^ n}"
proof (rule bij_betw_byWitness [where f' = "\<lambda>col::nat. if bit col c then xor col (2 ^ t) else col"])
  show "\<forall>a\<in>{..<(2::nat) ^ n}. (if bit (if bit a c then xor a (2 ^ t) else a) c
            then xor (if bit a c then xor a (2 ^ t) else a) (2 ^ t)
            else if bit a c then xor a (2 ^ t) else a) = a"
    using assms(1) by (simp add: bit_xor_pow xor_pow_invol)
  then show "\<forall>a'\<in>{..<(2::nat) ^ n}. (if bit (if bit a' c then xor a' (2 ^ t) else a') c
            then xor (if bit a' c then xor a' (2 ^ t) else a') (2 ^ t)
            else if bit a' c then xor a' (2 ^ t) else a') = a'" .
  show "(\<lambda>col::nat. if bit col c then xor col (2 ^ t) else col) ` {..<2 ^ n} \<subseteq> {..<2 ^ n}"
    using assms(2) by (auto simp: xor_pow_lt)
  then show "(\<lambda>col::nat. if bit col c then xor col (2 ^ t) else col) ` {..<2 ^ n} \<subseteq> {..<2 ^ n}" .
qed

subsection \<open>Products and state vectors\<close>

lemma matvec_mk: "matvec (mk d a) v = map (\<lambda>r. \<Sum>k<d. a r k * v ! k) [0..<d]"
  by (simp add: matvec_def interv_sum_list_conv_sum_set_nat atLeast0LessThan)

lemma length_matvec: "length (matvec M v) = length M"
  by (simp add: matvec_def)

lemma matvec_matmul_mk:
  "matvec (matmul (mk d a) (mk d b)) v = matvec (mk d a) (matvec (mk d b) v)"
proof -
  have "(\<Sum>k<d. (\<Sum>l<d. a r l * b l k) * v ! k) =
        (\<Sum>l<d. a r l * (map (\<lambda>r. \<Sum>k<d. b r k * v ! k) [0..<d] ! l))" for r
  proof -
    have "(\<Sum>k<d. (\<Sum>l<d. a r l * b l k) * v ! k) = (\<Sum>k<d. \<Sum>l<d. a r l * b l k * v ! k)"
      by (simp add: sum_distrib_right)
    also have "\<dots> = (\<Sum>l<d. \<Sum>k<d. a r l * b l k * v ! k)"
      by (rule sum.swap)
    also have "\<dots> = (\<Sum>l<d. a r l * (\<Sum>k<d. b l k * v ! k))"
      by (simp add: sum_distrib_left mult.assoc)
    also have "\<dots> = (\<Sum>l<d. a r l * (map (\<lambda>r. \<Sum>k<d. b r k * v ! k) [0..<d] ! l))"
      by (intro sum.cong) auto
    finally show ?thesis .
  qed
  then show ?thesis by (simp add: matmul_mk_mk matvec_mk)
qed

lemma matvec_matmul:
  assumes "sq d A" "sq d B"
  shows "matvec (matmul A B) v = matvec A (matvec B v)"
  using matvec_matmul_mk [of d "\<lambda>r c. A ! r ! c" "\<lambda>r c. B ! r ! c" v]
  by (simp add: mk_of_sq assms)

lemma matvec_eye: "length v = d \<Longrightarrow> matvec (eye d) v = v"
  by (auto simp: eye_mk matvec_mk sum_delta_l intro!: nth_equalityI)

lemma sq_mat_prod: "list_all (sq d) As \<Longrightarrow> sq d (mat_prod d As)"
  by (cases As) (simp_all add: sq_matmul)

lemma apply_gates_snoc: "apply_gates (Gs @ [G]) v = matvec G (apply_gates Gs v)"
  by (induction Gs arbitrary: v) simp_all

lemma gate_matrices_sq:
  "map (gate_matrix (2 ^ n)) c = map Inr Gs \<Longrightarrow> list_all (sq (2 ^ n)) Gs"
proof (induction c arbitrary: Gs)
  case Nil
  then show ?case by simp
next
  case (Cons g c)
  then obtain G Gs' where Gs: "Gs = G # Gs'" by (cases Gs) auto
  then show ?case using Cons by (auto dest: gate_matrix_sq)
qed

lemma gtm_product:
  "map (gate_matrix (2 ^ n)) c = map Inr Gs \<Longrightarrow>
   gates_to_matrix c n = Inr (mat_prod (2 ^ n) (rev Gs))"
proof (induction c arbitrary: Gs rule: rev_induct)
  case Nil
  then show ?case by (simp add: gtm_Nil)
next
  case (snoc g c)
  from snoc.prems obtain Gs' G where Gs: "Gs = Gs' @ [G]"
    by (cases Gs rule: rev_cases) auto
  with snoc.prems have c: "map (gate_matrix (2 ^ n)) c = map Inr Gs'"
    and g: "gate_matrix (2 ^ n) g = Inr G" by auto
  show ?case by (simp add: gtm_snoc snoc.IH [OF c] g Gs)
qed

lemma product_applies:
  "list_all (sq d) Gs \<Longrightarrow> length v = d \<Longrightarrow>
   matvec (mat_prod d (rev Gs)) v = apply_gates Gs v"
proof (induction Gs rule: rev_induct)
  case Nil
  then show ?case by (simp add: matvec_eye)
next
  case (snoc G Gs)
  then have G: "sq d G" and Gs: "list_all (sq d) Gs" by simp_all
  have P: "sq d (mat_prod d (rev Gs))" by (rule sq_mat_prod) (simp add: Gs)
  show ?case
    by (simp add: matvec_matmul [OF G P] snoc.IH [OF Gs snoc.prems(2)] apply_gates_snoc)
qed

subsection \<open>A circuit of two CNOT gates\<close>

lemma cnot01_matrix:
  "gate_matrix (2 ^ 2) (CNOT 0 1) = Inr [[1, 0, 0, 0], [0, 0, 0, 1], [0, 0, 1, 0], [0, 1, 0, 0]]"
proof -
  have "mk (2 ^ 2) (cnot_fun 0 1) = [[1, 0, 0, 0], [0, 0, 0, 1], [0, 0, 1, 0], [0, 1, 0, 0]]"
    by code_simp
  then show ?thesis using gate_matrix_wf [of 2 "CNOT 0 1"] by simp
qed

lemma cnot10_matrix:
  "gate_matrix (2 ^ 2) (CNOT 1 0) = Inr [[1, 0, 0, 0], [0, 1, 0, 0], [0, 0, 0, 1], [0, 0, 1, 0]]"
proof -
  have "mk (2 ^ 2) (cnot_fun 1 0) = [[1, 0, 0, 0], [0, 1, 0, 0], [0, 0, 0, 1], [0, 0, 1, 0]]"
    by code_simp
  then show ?thesis using gate_matrix_wf [of 2 "CNOT 1 0"] by simp
qed

lemma matmul_10_01:
  "matmul [[1, 0, 0, 0], [0, 1, 0, 0], [0, 0, 0, 1], [0, 0, 1, 0]]
          [[1, 0, 0, 0], [0, 0, 0, 1], [0, 0, 1, 0], [0, 1, 0, 0]] =
   [[1, 0, 0, 0], [0, 0, 0, 1], [0, 1, 0, 0], [0, 0, 1, 0]]"
  by code_simp

lemma two_cnots_matrix:
  "gates_to_matrix [CNOT 0 1, CNOT 1 0] 2 =
   Inr [[1, 0, 0, 0], [0, 0, 0, 1], [0, 1, 0, 0], [0, 0, 1, 0]]"
proof -
  have "gates_to_matrix ([CNOT 0 1] @ [CNOT 1 0]) 2 =
        Inr [[1, 0, 0, 0], [0, 0, 0, 1], [0, 1, 0, 0], [0, 0, 1, 0]]"
    unfolding gtm_snoc gtm_single cnot01_matrix cnot10_matrix
    by (simp add: matmul_10_01)
  then show ?thesis by simp
qed

lemma matmul_01_10:
  "matmul [[1, 0, 0, 0], [0, 0, 0, 1], [0, 0, 1, 0], [0, 1, 0, 0]]
          [[1, 0, 0, 0], [0, 1, 0, 0], [0, 0, 0, 1], [0, 0, 1, 0]] =
   [[1, 0, 0, 0], [0, 0, 1, 0], [0, 0, 0, 1], [0, 1, 0, 0]]"
  by code_simp

lemma cnots_10_01_matrix:
  "gates_to_matrix [CNOT 1 0, CNOT 0 1] 2 =
   Inr [[1, 0, 0, 0], [0, 0, 1, 0], [0, 0, 0, 1], [0, 1, 0, 0]]"
proof -
  have "gates_to_matrix ([CNOT 1 0] @ [CNOT 0 1]) 2 =
        Inr [[1, 0, 0, 0], [0, 0, 1, 0], [0, 0, 0, 1], [0, 1, 0, 0]]"
    unfolding gtm_snoc gtm_single cnot01_matrix cnot10_matrix
    by (simp add: matmul_01_10)
  then show ?thesis by simp
qed

subsection \<open>Unitarity\<close>

lemma rz_zero_eye: "mk d (rz_fun 0 q) = eye d"
  by (simp add: eye_mk mk_eq_iff rz_fun_def)

lemma sum_diag:
  "r < (d::nat) \<Longrightarrow> (\<Sum>k<d. (if r = k then x k else 0) * y k) = (x r * y r :: complex)"
proof -
  assume r: "r < d"
  have "(\<Sum>k<d. (if r = k then x k else 0) * y k) = (\<Sum>k<d. if k = r then x k * y k else 0)"
    by (intro sum.cong) auto
  then show ?thesis using r by (simp add: sum_pick)
qed









subsection \<open>Gates outside the data model\<close>

lemma cnot50_matrix: "gates_to_matrix [CNOT 5 0] 1 = Inr [[1, 0], [0, 1]]"
proof -
  have "eye (2 ^ 1) = [[1, 0], [0, 1]]"
    by code_simp
  then show ?thesis
    using cnot_matrix_cases [of 1 5 0] by (simp add: gtm_single)
qed

lemma rz03_matrix: "gates_to_matrix [RZ 0 3] 1 = Inr [[1, 0], [0, 1]]"
proof -
  have "eye (2 ^ 1) = [[1, 0], [0, 1]]"
    by code_simp
  then show ?thesis
    using rz_matrix_cases [of 1 0 3] by (simp add: gtm_single rz_zero_eye)
qed

lemma cnot05_error: "gates_to_matrix [CNOT 0 5] 1 = Inl IndexError"
  using cnot_matrix_cases [of 1 0 5] by (simp add: gtm_single)

lemma gate_raises: "(\<exists>e. gate_matrix (2 ^ n) g = Inl e) = raises n g"
  by (cases g) (auto simp: cnot_matrix_cases rz_matrix_cases split: if_splits)

lemma gtm_raises: "(\<exists>e. gates_to_matrix c n = Inl e) = list_ex (raises n) c"
proof (induction c)
  case Nil
  show ?case by (simp add: gtm_Nil)
next
  case (Cons g c)
  show ?case
  proof (cases "gate_matrix (2 ^ n) g")
    case (Inl e)
    then have "raises n g" using gate_raises [of n g] by auto
    then show ?thesis using Inl by (simp add: gtm_Cons)
  next
    case (Inr G)
    then have "\<not> raises n g" using gate_raises [of n g] by auto
    then show ?thesis using Inr Cons.IH by (auto simp: gtm_Cons split: sum.splits)
  qed
qed

lemma rz_idle:
  "n \<le> q \<Longrightarrow>
   mk (2 ^ n) (rz_fun angle q) =
   mk (2 ^ n) (\<lambda>r c. if r = c then exp (\<i> * complex_of_real angle / 2) else 0)"
  by (simp add: mk_eq_iff rz_fun_def not_bit_lt)

subsection \<open>The metrics of the driver\<close>

lemma np_abs_sub:
  assumes "sq d A" "sq d B"
  shows "np_abs (np_sub A B) = map (\<lambda>r. map (\<lambda>c. cmod (A ! r ! c - B ! r ! c)) [0..<d]) [0..<d]"
  using assms
  by (auto simp: np_abs_def np_sub_def sq_def list_all_length intro!: nth_equalityI)

lemma np_abs_sq:
  assumes "sq d A"
  shows "np_abs A = map (\<lambda>r. map (\<lambda>c. cmod (A ! r ! c)) [0..<d]) [0..<d]"
  using assms
  by (auto simp: np_abs_def sq_def list_all_length intro!: nth_equalityI)

lemma set_concat_table:
  "set (concat (map (\<lambda>r. map (\<lambda>c. f r c) [0..<d]) [0..<d])) = {f r c | r c. r < d \<and> c < d}"
  by (auto, blast)

lemma np_max_table:
  fixes f :: "nat \<Rightarrow> nat \<Rightarrow> real"
  assumes "0 < d"
  shows "\<exists>m. np_max (map (\<lambda>r. map (\<lambda>c. f r c) [0..<d]) [0..<d]) = Inr m \<and>
             (\<forall>r<d. \<forall>c<d. f r c \<le> m) \<and> (\<exists>r<d. \<exists>c<d. m = f r c)"
proof -
  let ?xs = "concat (map (\<lambda>r. map (\<lambda>c. f r c) [0..<d]) [0..<d])"
  have S: "set ?xs = {f r c | r c. r < d \<and> c < d}" by (rule set_concat_table)
  have "f 0 0 \<in> set ?xs" unfolding S using assms by blast
  then obtain x xs where xs: "?xs = x # xs" by (cases ?xs) auto
  have m: "np_max (map (\<lambda>r. map (\<lambda>c. f r c) [0..<d]) [0..<d]) = Inr (Max (set ?xs))"
    by (simp only: np_max_def xs list.case Max.set_eq_fold)
  have ne: "set ?xs \<noteq> {}" using xs by simp
  have ge: "\<forall>r<d. \<forall>c<d. f r c \<le> Max (set ?xs)"
  proof (intro allI impI)
    fix r c assume "r < d" "c < d"
    then have "f r c \<in> set ?xs" unfolding S by blast
    then show "f r c \<le> Max (set ?xs)" by (intro Max_ge) simp_all
  qed
  have "Max (set ?xs) \<in> set ?xs" using ne by (intro Max_in) simp_all
  then have "\<exists>r<d. \<exists>c<d. Max (set ?xs) = f r c" unfolding S by blast
  then show ?thesis using m ge by blast
qed


subsection \<open>Permutation matrices and diagonal matrices\<close>

lemma cnot_fun_pm: "mk d (cnot_fun c t) = pm d (cnot_flip c t)"
  by (simp add: pm_def cnot_fun_def cnot_flip_def mk_eq_iff)

lemma sq_pm [simp]: "sq d (pm d p)"
  by (simp add: pm_def)

lemma sq_dg [simp]: "sq d (dg d w)"
  by (simp add: dg_def)

lemma pm_id: "pm d (\<lambda>x. x) = eye d"
  by (simp add: pm_def eye_mk)

lemma pm_compose:
  assumes "\<And>c. c < d \<Longrightarrow> p2 c < d"
  shows "matmul (pm d p1) (pm d p2) = pm d (\<lambda>x. p1 (p2 x))"
proof -
  have "(\<Sum>k<d. (if r = p1 k then 1 else 0) * (if k = p2 c then 1 else 0)) =
        (if r = p1 (p2 c) then (1::complex) else 0)" if "c < d" for r c
    using sum_delta_r [OF assms [OF that], of "\<lambda>k. if r = p1 k then 1 else 0"] by simp
  then show ?thesis by (simp add: pm_def matmul_mk_mk mk_eq_iff)
qed

lemma dg_mult: "matmul (dg d w1) (dg d w2) = dg d (\<lambda>x. w1 x * w2 x)"
proof -
  have "(\<Sum>k<d. (if r = k then w1 k else 0) * (if k = c then w2 c else 0)) =
        (if r = c then w1 c * w2 c else 0)" if "r < d" for r c
    using sum_diag [OF that, of w1 "\<lambda>k. if k = c then w2 c else 0"] by simp
  then show ?thesis by (simp add: dg_def matmul_mk_mk mk_eq_iff)
qed

lemma conj_diag:
  assumes into: "\<And>x. x < d \<Longrightarrow> p x < d" and inj: "inj_on p {..<d}"
  shows "matmul (matmul (dagger (pm d p)) (dg d w)) (pm d p) = dg d (\<lambda>x. w (p x))"
proof -
  have 1: "dagger (pm d p) = mk d (\<lambda>r c. if p r = c then 1 else 0)"
    by (auto simp: pm_def dagger_mk_mk mk_eq_iff)
  have 2: "matmul (mk d (\<lambda>r c. if p r = c then 1 else 0)) (dg d w) =
           mk d (\<lambda>r c. if p r = c then w c else 0)"
  proof -
    have "(\<Sum>k<d. (if p r = k then 1 else 0) * (if k = c then w c else 0)) =
          (if p r = c then w c else 0)" if "r < d" for r c
      using sum_diag [OF into [OF that], of "\<lambda>k. 1" "\<lambda>k. if k = c then w c else 0"] by simp
    then show ?thesis by (simp add: dg_def matmul_mk_mk mk_eq_iff)
  qed
  have 3: "matmul (mk d (\<lambda>r c. if p r = c then w c else 0)) (pm d p) =
           dg d (\<lambda>x. w (p x))"
  proof -
    have "(\<Sum>k<d. (if p r = k then w k else 0) * (if k = p c then 1 else 0)) =
          (if r = c then w (p c) else 0)" if r: "r < d" and c: "c < d" for r c
    proof -
      have "(\<Sum>k<d. (if p r = k then w k else 0) * (if k = p c then 1 else 0)) =
            w (p r) * (if p r = p c then 1 else 0)"
        by (rule sum_diag [OF into [OF r]])
      moreover have "p r = p c \<longleftrightarrow> r = c"
        using inj r c by (auto simp: inj_on_def)
      ultimately show ?thesis by auto
    qed
    then show ?thesis by (simp add: dg_def pm_def matmul_mk_mk mk_eq_iff)
  qed
  show ?thesis unfolding 1 2 3 ..
qed

lemma bit_cnot_flip:
  "bit (cnot_flip c t x) b = (if b = t then bit x t \<noteq> bit x c else bit x b)"
  by (auto simp: cnot_flip_def bit_xor_pow)

lemma cnot_flip_lt: "x < 2 ^ n \<Longrightarrow> t < n \<Longrightarrow> cnot_flip c t x < 2 ^ n"
  by (simp add: cnot_flip_def xor_pow_lt)

lemma fan_in_snoc: "fan_in (bs @ [b]) q x = cnot_flip b q (fan_in bs q x)"
  by (simp add: fan_in_def)

lemma fan_in_lt: "x < 2 ^ n \<Longrightarrow> q < n \<Longrightarrow> fan_in bs q x < 2 ^ n"
  by (induction bs rule: rev_induct) (simp_all add: fan_in_def cnot_flip_lt)

lemma bit_fan_in:
  "q \<notin> set bs \<Longrightarrow>
   bit (fan_in bs q x) b =
     (if b = q then bit x q \<noteq> odd (length (filter (bit x) bs)) else bit x b)"
proof (induction bs arbitrary: b rule: rev_induct)
  case Nil
  show ?case by (simp add: fan_in_def)
next
  case (snoc a bs)
  then have aq: "a \<noteq> q" and q: "q \<notin> set bs" by auto
  have Iq: "bit (fan_in bs q x) q = (bit x q \<noteq> odd (length (filter (bit x) bs)))"
    using snoc.IH [OF q, of q] by simp
  have Ia: "bit (fan_in bs q x) a = bit x a"
    using snoc.IH [OF q, of a] aq by simp
  show ?case
  proof (cases "b = q")
    case True
    show ?thesis
      unfolding fan_in_snoc bit_cnot_flip True using Iq Ia by auto
  next
    case False
    show ?thesis
      unfolding fan_in_snoc bit_cnot_flip using False snoc.IH [OF q, of b] by simp
  qed
qed

lemma fan_in_inj: 
  assumes "q \<notin> set bs"
  shows "inj (fan_in bs q)"
proof (rule injI)
  fix x y assume e: "fan_in bs q x = fan_in bs q y"
  have other: "bit x b = bit y b" if "b \<noteq> q" for b
    using bit_fan_in [OF assms, of x b] bit_fan_in [OF assms, of y b] e that by simp
  have "filter (bit x) bs = filter (bit y) bs"
  proof (rule filter_cong [OF refl])
    fix b assume "b \<in> set bs"
    then have "b \<noteq> q" using assms by auto
    then show "bit x b = bit y b" by (rule other)
  qed
  then have f: "odd (length (filter (bit x) bs)) = odd (length (filter (bit y) bs))"
    by simp
  have "bit (fan_in bs q x) q = bit (fan_in bs q y) q" using e by simp
  then have "bit x q = bit y q"
    unfolding bit_fan_in [OF assms] f by auto
  then have "bit x b = bit y b" for b
    using other by (cases "b = q") auto
  then show "x = y" by (rule bit_eqI)
qed

lemma gtm_fan_in:
  assumes "q < n" "q \<notin> set bs" "\<forall>b\<in>set bs. b < n"
  shows "gates_to_matrix (map (\<lambda>b. CNOT (int b) (int q)) bs) n = Inr (pm (2 ^ n) (fan_in bs q))"
  using assms(2,3)
proof (induction bs rule: rev_induct)
  case Nil
  show ?case by (simp add: gtm_Nil fan_in_def pm_id)
next
  case (snoc b bs)
  then have IH: "gates_to_matrix (map (\<lambda>b. CNOT (int b) (int q)) bs) n =
                 Inr (pm (2 ^ n) (fan_in bs q))"
    and b: "b < n" "b \<noteq> q" by auto
  have wf: "well_formed n (CNOT (int b) (int q))" using b assms(1) by simp
  have G: "gate_matrix (2 ^ n) (CNOT (int b) (int q)) = Inr (pm (2 ^ n) (cnot_flip b q))"
    using gate_matrix_wf [OF wf] by (simp add: cnot_fun_pm)
  have "matmul (pm (2 ^ n) (cnot_flip b q)) (pm (2 ^ n) (fan_in bs q)) =
        pm (2 ^ n) (\<lambda>x. cnot_flip b q (fan_in bs q x))"
    by (rule pm_compose) (simp add: fan_in_lt assms(1))
  then show ?case
    by (simp add: gtm_snoc IH G fan_in_snoc [abs_def] del: gate_matrix.simps)
qed

subsection \<open>The circuit of one Walsh coefficient\<close>

lemma subset_qubits_nonempty:
  assumes "0 < s" "s < 2 ^ n"
  shows "subset_qubits n s \<noteq> []"
proof -
  have "s \<noteq> 0" using assms(1) by simp
  then obtain b where b: "bit s b" by (auto simp: bit_eq_iff)
  have "b < n" using not_bit_lt [OF assms(2), of b] b by (cases "b < n") auto
  then have "b \<in> set (subset_qubits n s)" using b by (simp add: subset_qubits_def)
  then show ?thesis by auto
qed

lemma subset_qubits_props:
  assumes "subset_qubits n s = q # bs"
  shows "q < n" "q \<notin> set bs" "\<forall>b\<in>set bs. b < n"
proof -
  have "distinct (filter (bit s) [0..<n])" by simp
  then have d: "distinct (q # bs)"
    using assms unfolding subset_qubits_def by (simp only:)
  have m: "set (q # bs) \<subseteq> {..<n}"
    using assms [symmetric] by (auto simp: subset_qubits_def)
  show "q < n" using m by simp
  show "q \<notin> set bs" using d by simp
  show "\<forall>b\<in>set bs. b < n" using m by auto
qed

lemma rz_fun_dg:
  "mk d (rz_fun (2 * a) q) = dg d (\<lambda>x. if bit x q then cis (- a) else cis a)"
  by (simp add: dg_def rz_fun_cis mk_eq_iff)

lemma gtm_mirror:
  assumes "q < n" "q \<notin> set bs" "\<forall>b\<in>set bs. b < n"
  shows "gates_to_matrix (map (\<lambda>b. CNOT (int b) (int q)) (rev bs)) n =
         Inr (dagger (pm (2 ^ n) (fan_in bs q)))"
proof -
  let ?c = "map (\<lambda>b. CNOT (int b) (int q)) bs"
  have wf: "list_all (well_formed n) ?c"
    using assms by (auto simp: list_all_iff)
  have "V_dagger_circuit ?c = map (\<lambda>b. CNOT (int b) (int q)) (rev bs)"
    by (simp add: V_dagger_circuit_def rev_map comp_def)
  then show ?thesis
    using inverse_law_aux [OF wf gtm_fan_in [OF assms]] by simp
qed

lemma walsh_sign:
  assumes "subset_qubits n s = q # bs" "q \<notin> set bs"
  shows "(if bit (fan_in bs q x) q then cis (- a) else cis a) = cis (a * walsh n s x)"
proof -
  have "bit (fan_in bs q x) q = (bit x q \<noteq> odd (length (filter (bit x) bs)))"
    using bit_fan_in [OF assms(2), of x q] by simp
  moreover have "walsh n s x = (if bit x q \<noteq> odd (length (filter (bit x) bs)) then - 1 else 1)"
    by (auto simp: walsh_def assms(1))
  ultimately show ?thesis by simp
qed

lemma gtm_walsh_term:
  assumes "0 < s" "s < 2 ^ n"
  shows "gates_to_matrix (walsh_term n phases s) n =
         Inr (dg (2 ^ n) (\<lambda>x. cis (walsh_coefficient n phases s * walsh n s x)))"
proof -
  obtain q bs where qs: "subset_qubits n s = q # bs"
    using subset_qubits_nonempty [OF assms] by (cases "subset_qubits n s") auto
  note p = subset_qubits_props [OF qs]
  let ?a = "walsh_coefficient n phases s"
  let ?P = "pm (2 ^ n) (fan_in bs q)"
  let ?R = "dg (2 ^ n) (\<lambda>x. if bit x q then cis (- ?a) else cis ?a)"
  have stair: "gates_to_matrix (map (\<lambda>b. CNOT (int b) (int q)) bs) n = Inr ?P"
    by (rule gtm_fan_in [OF p])
  have mirror: "gates_to_matrix (map (\<lambda>b. CNOT (int b) (int q)) (rev bs)) n = Inr (dagger ?P)"
    by (rule gtm_mirror [OF p])
  have wf: "well_formed n (RZ (2 * ?a) (int q))" using p(1) by simp
  have rz: "gates_to_matrix [RZ (2 * ?a) (int q)] n = Inr ?R"
    using gate_matrix_wf [OF wf] by (simp add: gtm_single rz_fun_dg)
  have "gates_to_matrix (walsh_term n phases s) n =
        Inr (matmul (matmul (dagger ?P) ?R) ?P)"
    unfolding walsh_term_def qs list.case gtm_append [of _ "_ @ _"] gtm_append [of "[_]"]
    by (simp add: stair mirror rz)
  also have "matmul (matmul (dagger ?P) ?R) ?P =
        dg (2 ^ n) (\<lambda>x. if bit (fan_in bs q x) q then cis (- ?a) else cis ?a)"
    by (rule conj_diag) (simp_all add: fan_in_lt p(1) inj_on_subset [OF fan_in_inj [OF p(2)]])
  also have "\<dots> = dg (2 ^ n) (\<lambda>x. cis (?a * walsh n s x))"
    by (simp add: walsh_sign [OF qs p(2)])
  finally show ?thesis .
qed

lemma gtm_walsh_terms:
  assumes "\<forall>s\<in>set ss. 0 < s \<and> s < 2 ^ n"
  shows "gates_to_matrix (concat (map (walsh_term n phases) ss)) n =
         Inr (dg (2 ^ n) (\<lambda>x. cis (\<Sum>s\<leftarrow>ss. walsh_coefficient n phases s * walsh n s x)))"
  using assms
proof (induction ss)
  case Nil
  show ?case by (simp add: gtm_Nil dg_def eye_mk)
next
  case (Cons s ss)
  then have s: "0 < s" "s < 2 ^ n" and ss: "\<forall>s\<in>set ss. 0 < s \<and> s < 2 ^ n" by auto
  show ?case
    by (simp add: gtm_append gtm_walsh_term [OF s] Cons.IH [OF ss] dg_mult cis_mult add.commute)
qed

subsection \<open>Walsh functions are orthogonal\<close>

lemma add_pow_xor:
  assumes "s < 2 ^ n"
  shows "s + 2 ^ n = xor (s::nat) (2 ^ n)"
proof (rule disjunctive_add_eq_xor)
  have nb: "\<not> bit s n" using assms by (rule not_bit_lt) simp
  show "and s (2 ^ n) = 0"
    by (rule bit_eqI) (use nb in \<open>auto simp: bit_and_iff bit_exp_iff\<close>)
qed

lemma bit_add_pow:
  assumes "s < 2 ^ n"
  shows "bit (s + 2 ^ n) b = (bit (s::nat) b \<or> b = n)"
proof -
  have nb: "\<not> bit s n" using assms by (rule not_bit_lt) simp
  show ?thesis
    unfolding add_pow_xor [OF assms] using nb by (auto simp: bit_xor_pow)
qed

lemma walsh_Suc:
  "walsh (Suc n) s x = walsh n s x * (if bit s n \<and> bit x n then - 1 else 1)"
  by (simp add: walsh_def subset_qubits_def)

lemma walsh_low: "s < 2 ^ n \<Longrightarrow> walsh (Suc n) s x = walsh n s x"
  using not_bit_lt [of s n n] by (simp add: walsh_Suc)

lemma subset_qubits_high: "s < 2 ^ n \<Longrightarrow> subset_qubits n (s + 2 ^ n) = subset_qubits n s"
  unfolding subset_qubits_def by (rule filter_cong) (auto simp: bit_add_pow)

lemma walsh_high:
  "s < 2 ^ n \<Longrightarrow> walsh (Suc n) (s + 2 ^ n) x = walsh n s x * (if bit x n then - 1 else 1)"
  by (simp add: walsh_Suc bit_add_pow) (simp add: walsh_def subset_qubits_high)

lemma sum_halves:
  fixes f :: "nat \<Rightarrow> real"
  shows "(\<Sum>s<2 ^ Suc n. f s) = (\<Sum>s<2 ^ n. f s) + (\<Sum>s<2 ^ n. f (s + 2 ^ n))"
proof -
  have "(\<Sum>s<2 ^ Suc n. f s) = sum f {0..<2 ^ n} + sum f {2 ^ n..<2 ^ n + 2 ^ n}"
    by (simp add: atLeast0LessThan [symmetric] sum.atLeastLessThan_concat mult_2)
  also have "sum f {2 ^ n..<2 ^ n + 2 ^ n} = (\<Sum>s = 0..<2 ^ n. f (s + 2 ^ n))"
    using sum.shift_bounds_nat_ivl [of f 0 "2 ^ n" "2 ^ n"] by simp
  finally show ?thesis by (simp add: atLeast0LessThan)
qed

lemma take_bit_eq_bits:
  "take_bit n (x::nat) = take_bit n y \<longleftrightarrow> (\<forall>b<n. bit x b = bit y b)"
proof
  assume e: "take_bit n x = take_bit n y"
  show "\<forall>b<n. bit x b = bit y b"
  proof (intro allI impI)
    fix b assume b: "b < n"
    have "bit (take_bit n x) b = bit (take_bit n y) b" using e by simp
    then show "bit x b = bit y b" using b by (simp add: bit_take_bit_iff)
  qed
next
  assume "\<forall>b<n. bit x b = bit y b"
  then show "take_bit n x = take_bit n y"
    by (intro bit_eqI) (auto simp: bit_take_bit_iff)
qed

lemma take_bit_Suc_eq_iff:
  "take_bit (Suc n) (x::nat) = take_bit (Suc n) y \<longleftrightarrow>
   take_bit n x = take_bit n y \<and> bit x n = bit y n"
  by (auto simp: take_bit_eq_bits less_Suc_eq)

lemma walsh_orthogonal:
  "(\<Sum>s<2 ^ n. walsh n s x * walsh n s y) = (if take_bit n x = take_bit n y then 2 ^ n else 0)"
proof (induction n)
  case 0
  show ?case by (simp add: walsh_def subset_qubits_def)
next
  case (Suc n)
  let ?e = "\<lambda>z::nat. if bit z n then - 1 else (1::real)"
  have "(\<Sum>s<2 ^ Suc n. walsh (Suc n) s x * walsh (Suc n) s y) =
        (\<Sum>s<2 ^ n. walsh n s x * walsh n s y) +
        (\<Sum>s<2 ^ n. (walsh n s x * ?e x) * (walsh n s y * ?e y))"
    unfolding sum_halves by (simp add: walsh_low walsh_high)
  also have "(\<Sum>s<2 ^ n. (walsh n s x * ?e x) * (walsh n s y * ?e y)) =
        (?e x * ?e y) * (\<Sum>s<2 ^ n. walsh n s x * walsh n s y)"
    by (simp add: sum_distrib_left mult_ac)
  finally have "(\<Sum>s<2 ^ Suc n. walsh (Suc n) s x * walsh (Suc n) s y) =
        (1 + ?e x * ?e y) * (if take_bit n x = take_bit n y then 2 ^ n else 0)"
    unfolding Suc.IH by (simp add: algebra_simps)
  then show ?case
    unfolding take_bit_Suc_eq_iff by auto
qed

subsection \<open>The synthesized circuit\<close>

lemma walsh_coefficient_sum:
  "walsh_coefficient n phases s = (\<Sum>y<2 ^ n. phases ! y * walsh n s y) / 2 ^ n"
  by (simp add: walsh_coefficient_def interv_sum_list_conv_sum_set_nat atLeast0LessThan)

lemma walsh_inversion:
  assumes "x < 2 ^ n"
  shows "(\<Sum>s<2 ^ n. walsh_coefficient n phases s * walsh n s x) = phases ! x"
proof -
  have "(\<Sum>s<2 ^ n. walsh_coefficient n phases s * walsh n s x) =
        (\<Sum>s<2 ^ n. \<Sum>y<2 ^ n. phases ! y * (walsh n s y * walsh n s x)) / 2 ^ n"
    by (simp add: walsh_coefficient_sum sum_divide_distrib sum_distrib_right mult.assoc)
  also have "(\<Sum>s<2 ^ n. \<Sum>y<2 ^ n. phases ! y * (walsh n s y * walsh n s x)) =
        (\<Sum>y<2 ^ n. \<Sum>s<2 ^ n. phases ! y * (walsh n s y * walsh n s x))"
    by (rule sum.swap)
  also have "\<dots> = (\<Sum>y<2 ^ n. phases ! y * (if take_bit n y = take_bit n x then 2 ^ n else 0))"
    by (simp add: sum_distrib_left [symmetric] walsh_orthogonal)
  also have "\<dots> = (\<Sum>y<2 ^ n. if y = x then phases ! y * 2 ^ n else 0)"
    using assms by (intro sum.cong) (auto simp: take_bit_nat_eq_self)
  also have "\<dots> = phases ! x * 2 ^ n"
    using assms by (simp add: sum.delta)
  finally show ?thesis by simp
qed

lemma walsh_zero: "walsh n 0 x = 1"
  by (simp add: walsh_def subset_qubits_def)

lemma sum_list_from_1:
  fixes f :: "nat \<Rightarrow> real"
  shows "(\<Sum>s\<leftarrow>[1..<2 ^ n]. f s) = (\<Sum>s<2 ^ n. f s) - f 0"
proof -
  have "[0..<2 ^ n] = 0 # [1..<2 ^ n]" by (simp add: upt_conv_Cons)
  then have "(\<Sum>s\<leftarrow>[0..<2 ^ n]. f s) = f 0 + (\<Sum>s\<leftarrow>[1..<2 ^ n]. f s)" by simp
  then show ?thesis
    by (simp add: interv_sum_list_conv_sum_set_nat atLeast0LessThan)
qed

lemma walsh_expansion:
  assumes "x < 2 ^ n"
  shows "(\<Sum>s\<leftarrow>[1..<2 ^ n]. walsh_coefficient n phases s * walsh n s x) =
         phases ! x - walsh_coefficient n phases 0"
  unfolding sum_list_from_1 by (simp add: walsh_inversion [OF assms] walsh_zero)

lemma log2_pow: "log2 (2 ^ n) = n"
proof (induction n)
  case 0
  show ?case by simp
next
  case (Suc n)
  have "log2 (2 ^ Suc n) = Suc (log2 (2 ^ Suc n div 2))"
    by (subst log2.simps) simp
  then show ?case using Suc by simp
qed

lemma scale_mk: "sq d M \<Longrightarrow> scale k M = mk d (\<lambda>r c. k * M ! r ! c)"
  by (auto simp: scale_def mk_def sq_def list_all_length intro!: nth_equalityI)

lemma cis_Arg_unit: "cmod z = 1 \<Longrightarrow> cis (Arg z) = z"
proof -
  assume z: "cmod z = 1"
  then have "z \<noteq> 0" by auto
  then show ?thesis using z by (simp add: cis_Arg sgn_eq)
qed

lemma synthesis_up_to_phase:
  assumes "diagonal_unitary n D"
  shows "gates_to_matrix (build_optimal_walsh_circuit D) n =
         Inr (scale (cis (- mean_phase D)) D)"
proof -
  have sq: "sq (2 ^ n) D" and len: "length D = 2 ^ n"
    using assms by (simp_all add: diagonal_unitary_def sq_length)
  have diag: "cmod (D ! c ! c) = 1" if "c < 2 ^ n" for c
    using assms that by (auto simp: diagonal_unitary_def)
  have off: "D ! r ! c = 0" if "r < 2 ^ n" "c < 2 ^ n" "r \<noteq> c" for r c
    using assms that by (auto simp: diagonal_unitary_def)
  let ?ph = "map (\<lambda>x. Arg (D ! x ! x)) [0..<2 ^ n]"
  have m: "map ((!) ?ph) [0..<2 ^ n] = ?ph"
    using map_nth [of ?ph] by simp
  have a0: "walsh_coefficient n ?ph 0 = mean_phase D"
    unfolding walsh_coefficient_def walsh_zero mean_phase_def len mult_1_right m by simp
  have range: "\<forall>s\<in>set [1..<2 ^ n]. 0 < s \<and> s < 2 ^ n" by auto
  have "gates_to_matrix (build_optimal_walsh_circuit D) n =
        Inr (dg (2 ^ n) (\<lambda>x. cis (\<Sum>s\<leftarrow>[1..<2 ^ n]. walsh_coefficient n ?ph s * walsh n s x)))"
    unfolding build_optimal_walsh_circuit_def Let_def len log2_pow
    by (rule gtm_walsh_terms [OF range])
  also have "dg (2 ^ n) (\<lambda>x. cis (\<Sum>s\<leftarrow>[1..<2 ^ n]. walsh_coefficient n ?ph s * walsh n s x)) =
        scale (cis (- mean_phase D)) D"
  proof -
    have "cis (\<Sum>s\<leftarrow>[1..<2 ^ n]. walsh_coefficient n ?ph s * walsh n s c) =
          cis (- mean_phase D) * D ! c ! c" if c: "c < 2 ^ n" for c
    proof -
      have "(\<Sum>s\<leftarrow>[1..<2 ^ n]. walsh_coefficient n ?ph s * walsh n s c) =
            Arg (D ! c ! c) - mean_phase D"
        using walsh_expansion [OF c, of ?ph] c by (simp add: a0)
      moreover have "cis (Arg (D ! c ! c) - mean_phase D) =
            cis (- mean_phase D) * cis (Arg (D ! c ! c))"
        by (simp add: cis_mult)
      ultimately show ?thesis
        by (simp only: cis_Arg_unit [OF diag [OF c]])
    qed
    then show ?thesis
      unfolding scale_mk [OF sq] dg_def by (auto simp: mk_eq_iff off)
  qed
  finally show ?thesis .
qed

lemma scale_one: "scale 1 M = M"
  by (simp add: scale_def map_idI)

lemma diag_i_unitary: "diagonal_unitary 1 [[\<i>, 0], [0, \<i>]]"
  by (auto simp: diagonal_unitary_def sq_def less_Suc_eq numeral_2_eq_2)

lemma diag_z_unitary: "diagonal_unitary 1 [[1, 0], [0, - 1]]"
  by (auto simp: diagonal_unitary_def sq_def less_Suc_eq numeral_2_eq_2)

lemma mean_phase_i: "mean_phase [[\<i>, 0], [0, \<i>]] = pi / 2"
  by (simp add: mean_phase_def numeral_2_eq_2)

lemma synthesis_i: "gates_to_matrix (build_optimal_walsh_circuit [[\<i>, 0], [0, \<i>]]) 1 = Inr [[1, 0], [0, 1]]"
proof -
  have "cis (- (pi / 2)) = - \<i>" by (simp add: complex_eq_iff)
  then have "scale (cis (- mean_phase [[\<i>, 0], [0, \<i>]])) [[\<i>, 0], [0, \<i>]] = [[1, 0], [0, 1]]"
    by (simp add: mean_phase_i scale_def)
  then show ?thesis using synthesis_up_to_phase [OF diag_i_unitary] by simp
qed

subsection \<open>Circuits on one qubit\<close>

lemma one_qubit_circuit:
  "list_all (well_formed 1) c \<Longrightarrow>
   \<exists>a. gates_to_matrix c 1 = Inr (dg (2 ^ 1) (\<lambda>x. if bit x 0 then cis (- a) else cis a))"
proof (induction c)
  case Nil
  have "gates_to_matrix [] 1 = Inr (dg (2 ^ 1) (\<lambda>x. if bit x 0 then cis (- 0) else cis 0))"
    by (simp add: gtm_Nil dg_def eye_mk mk_eq_iff)
  then show ?case by blast
next
  case (Cons g c)
  then obtain a where a: "gates_to_matrix c 1 =
      Inr (dg (2 ^ 1) (\<lambda>x. if bit x 0 then cis (- a) else cis a))" by auto
  from Cons.prems have wf: "well_formed 1 g" by simp
  then obtain angle where g: "g = RZ angle 0" by (cases g) auto
  have "gate_matrix (2 ^ 1) g = Inr (mk (2 ^ 1) (rz_fun (2 * (angle / 2)) 0))"
    using gate_matrix_wf [OF wf] g by simp
  then have G: "gate_matrix (2 ^ 1) g =
      Inr (dg (2 ^ 1) (\<lambda>x. if bit x 0 then cis (- (angle / 2)) else cis (angle / 2)))"
    by (simp only: rz_fun_dg)
  have "gates_to_matrix (g # c) 1 =
      Inr (dg (2 ^ 1) (\<lambda>x. if bit x 0 then cis (- (a + angle / 2)) else cis (a + angle / 2)))"
    unfolding gtm_Cons G a sum.case dg_mult
    by (simp add: dg_def mk_eq_iff cis_mult)
  then show ?case by blast
qed

text \<open>
  However a synthesizer is written, a global phase can be out of reach of the gate set:
  on one qubit, no circuit of well-formed gates evaluates to the diagonal unitary matrix
  \<open>\<i> I\<close>, whose two diagonal entries multiply to \<open>- 1\<close>.
\<close>

lemma global_phase_unreachable:
  assumes "list_all (well_formed 1) c"
  shows "gates_to_matrix c 1 \<noteq> Inr [[\<i>, 0], [0, \<i>]]"
proof
  assume e: "gates_to_matrix c 1 = Inr [[\<i>, 0], [0, \<i>]]"
  obtain a where a: "gates_to_matrix c 1 =
      Inr (dg (2 ^ 1) (\<lambda>x. if bit x 0 then cis (- a) else cis a))"
    using one_qubit_circuit [OF assms] by blast
  let ?M = "dg (2 ^ 1) (\<lambda>x. if bit x 0 then cis (- a) else cis a)"
  have M: "?M = [[\<i>, 0], [0, \<i>]]" using e a by simp
  have "?M ! 0 ! 0 = cis a" and "?M ! 1 ! 1 = cis (- a)"
    by (simp_all add: dg_def bit_0)
  then have "cis a = \<i>" and "cis (- a) = \<i>"
    unfolding M by simp_all
  then have "cis a * cis (- a) = \<i> * \<i>" by simp
  then show False by (simp add: cis_mult)
qed

section \<open>The properties of the specification\<close>

text \<open>
  C1: for every circuit of CNOT and RZ gates over \<open>n\<close> qubits whose qubit indices lie in
  \<open>[0, n)\<close> and whose CNOT gates have distinct control and target, the evaluator returns
  a matrix, and on the reversed circuit with every RZ angle negated it returns the
  conjugate transpose of that matrix.
\<close>

theorem inverse_circuit_law:
  assumes "list_all (well_formed n) c"
  shows "\<exists>M. gates_to_matrix c n = Inr M \<and>
             gates_to_matrix (V_dagger_circuit c) n = Inr (dagger M)"
proof -
  obtain M where M: "gates_to_matrix c n = Inr M"
    using gtm_wf_total [OF assms] by blast
  then show ?thesis using inverse_law_aux [OF assms M] by blast
qed

theorem inverse_circuit_law_witness:
  "list_all (well_formed 2) [CNOT 0 1, RZ 1 0] \<and>
   (\<exists>M. gates_to_matrix [CNOT 0 1, RZ 1 0] 2 = Inr M \<and>
        gates_to_matrix (V_dagger_circuit [CNOT 0 1, RZ 1 0]) 2 = Inr (dagger M))"
  using inverse_circuit_law [of 2 "[CNOT 0 1, RZ 1 0]"] by simp

text \<open>
  C2: for a CNOT gate with distinct control and target in \<open>[0, n)\<close> (so \<open>n \<ge> 1\<close>), the
  evaluator builds a \<open>2 ^ n \<times> 2 ^ n\<close> matrix whose column \<open>col\<close> is the basis column \<open>col\<close>
  when the control bit of \<open>col\<close> is 0, and the basis column of \<open>col\<close> with the target bit
  flipped when the control bit is 1. Flipping stays below \<open>2 ^ n\<close> and changes the target
  bit only, and the map on basis indices is a permutation.
\<close>

theorem cnot_matrix_permutation:
  assumes "well_formed n (CNOT control target)"
  shows "\<exists>M. gates_to_matrix [CNOT control target] n = Inr M \<and> sq (2 ^ n) M \<and>
     (\<forall>col<2 ^ n. \<forall>row<2 ^ n.
        M ! row ! col =
          (if bit col (nat control)
           then (if row = xor col (2 ^ nat target) then 1 else 0)
           else (if row = col then 1 else 0))) \<and>
     (\<forall>col::nat. col < 2 ^ n \<longrightarrow> xor col (2 ^ nat target) < 2 ^ n \<and>
        (\<forall>q. bit (xor col (2 ^ nat target)) q =
               (if q = nat target then \<not> bit col q else bit col q))) \<and>
     bij_betw (\<lambda>col::nat. if bit col (nat control) then xor col (2 ^ nat target) else col)
       {..<2 ^ n} {..<2 ^ n}"
proof -
  have ct: "nat control \<noteq> nat target" and t: "nat target < n"
    using assms by auto
  have M: "gates_to_matrix [CNOT control target] n =
           Inr (mk (2 ^ n) (cnot_fun (nat control) (nat target)))"
    using gate_matrix_wf [OF assms] by (simp add: gtm_single)
  have ent: "\<forall>col<2 ^ n. \<forall>row<2 ^ n.
        mk (2 ^ n) (cnot_fun (nat control) (nat target)) ! row ! col =
          (if bit col (nat control)
           then (if row = xor col (2 ^ nat target) then 1 else 0)
           else (if row = col then 1 else 0))"
    by (simp add: cnot_fun_def)
  have flip: "\<forall>col::nat. col < 2 ^ n \<longrightarrow> xor col (2 ^ nat target) < 2 ^ n \<and>
        (\<forall>q. bit (xor col (2 ^ nat target)) q =
               (if q = nat target then \<not> bit col q else bit col q))"
    using t by (simp add: xor_pow_lt bit_xor_pow)
  show ?thesis
    using M ent flip flip_bij [OF ct t] sq_mk by blast
qed

theorem cnot_matrix_permutation_witness:
  "well_formed 2 (CNOT 0 1) \<and>
   (\<exists>M. gates_to_matrix [CNOT 0 1] 2 = Inr M \<and> sq (2 ^ 2) M \<and>
     (\<forall>col<2 ^ 2. \<forall>row<2 ^ 2.
        M ! row ! col =
          (if bit col (nat 0)
           then (if row = xor col (2 ^ nat 1) then 1 else 0)
           else (if row = col then 1 else 0))) \<and>
     (\<forall>col::nat. col < 2 ^ 2 \<longrightarrow> xor col (2 ^ nat 1) < 2 ^ 2 \<and>
        (\<forall>q. bit (xor col (2 ^ nat 1)) q =
               (if q = nat 1 then \<not> bit col q else bit col q))) \<and>
     bij_betw (\<lambda>col::nat. if bit col (nat 0) then xor col (2 ^ nat 1) else col)
       {..<2 ^ 2} {..<2 ^ 2})"
  using cnot_matrix_permutation [of 2 0 1] by simp

text \<open>
  C4: when \<open>Gs\<close> lists the single-gate matrices of the circuit \<open>c = [g\<^sub>1, \<dots>, g\<^sub>k]\<close> in
  order, the evaluator returns the product \<open>M(g\<^sub>k) \<cdot> \<dots> \<cdot> M(g\<^sub>1)\<close>, and applying that
  product to a state vector applies the gates in list order, \<open>g\<^sub>1\<close> first.
\<close>

theorem gates_to_matrix_product:
  assumes "map (gate_matrix (2 ^ n)) c = map Inr Gs" and "length v = 2 ^ n"
  shows "gates_to_matrix c n = Inr (mat_prod (2 ^ n) (rev Gs)) \<and>
         matvec (mat_prod (2 ^ n) (rev Gs)) v = apply_gates Gs v"
  using gtm_product [OF assms(1)] product_applies [OF gate_matrices_sq [OF assms(1)] assms(2)]
  by simp

theorem gates_to_matrix_product_witness:
  "map (gate_matrix (2 ^ 2)) [CNOT 0 1, CNOT 1 0] =
     map Inr [[[1, 0, 0, 0], [0, 0, 0, 1], [0, 0, 1, 0], [0, 1, 0, 0]],
              [[1, 0, 0, 0], [0, 1, 0, 0], [0, 0, 0, 1], [0, 0, 1, 0]]] \<and>
   length [0, 1, 0, 0 :: complex] = 2 ^ 2 \<and>
   gates_to_matrix [CNOT 0 1, CNOT 1 0] 2 =
     Inr (mat_prod (2 ^ 2)
           (rev [[[1, 0, 0, 0], [0, 0, 0, 1], [0, 0, 1, 0], [0, 1, 0, 0]],
                 [[1, 0, 0, 0], [0, 1, 0, 0], [0, 0, 0, 1], [0, 0, 1, 0]]])) \<and>
   matvec (mat_prod (2 ^ 2)
           (rev [[[1, 0, 0, 0], [0, 0, 0, 1], [0, 0, 1, 0], [0, 1, 0, 0]],
                 [[1, 0, 0, 0], [0, 1, 0, 0], [0, 0, 0, 1], [0, 0, 1, 0]]])) [0, 1, 0, 0] =
     apply_gates [[[1, 0, 0, 0], [0, 0, 0, 1], [0, 0, 1, 0], [0, 1, 0, 0]],
                  [[1, 0, 0, 0], [0, 1, 0, 0], [0, 0, 0, 1], [0, 0, 1, 0]]] [0, 1, 0, 0]"
proof -
  have h: "map (gate_matrix (2 ^ 2)) [CNOT 0 1, CNOT 1 0] =
     map Inr [[[1, 0, 0, 0], [0, 0, 0, 1], [0, 0, 1, 0], [0, 1, 0, 0]],
              [[1, 0, 0, 0], [0, 1, 0, 0], [0, 0, 0, 1], [0, 0, 1, 0]]]"
    using cnot01_matrix cnot10_matrix by simp
  have l: "length [0, 1, 0, 0 :: complex] = 2 ^ 2" by simp
  show ?thesis using h l gates_to_matrix_product [OF h l] by blast
qed

text \<open>
  C7: the claim says that the evaluator's matrix applies the first gate of the list last.
  The evaluator composes \<open>matrix = gate @ matrix\<close>, so the matrix of the first gate is the
  rightmost factor and acts first: with \<open>G\<close>, \<open>C\<close> and \<open>H\<close> the matrices of a gate \<open>g\<close>, a
  circuit \<open>c\<close> and a gate \<open>h\<close>, the circuit \<open>g # c\<close> applies \<open>G\<close> before \<open>C\<close>, and the
  circuit \<open>c @ [h]\<close> applies \<open>H\<close> after \<open>C\<close>.
\<close>

theorem first_gate_acts_first:
  assumes "gate_matrix (2 ^ n) g = Inr G" and "gates_to_matrix c n = Inr C"
    and "gate_matrix (2 ^ n) h = Inr H"
  shows "gates_to_matrix (g # c) n = Inr (matmul C G) \<and>
         matvec (matmul C G) v = matvec C (matvec G v) \<and>
         gates_to_matrix (c @ [h]) n = Inr (matmul H C) \<and>
         matvec (matmul H C) v = matvec H (matvec C v)"
proof -
  have G: "sq (2 ^ n) G" and H: "sq (2 ^ n) H"
    using assms(1,3) by (auto dest: gate_matrix_sq)
  have C: "sq (2 ^ n) C" using assms(2) by (rule gtm_sq)
  show ?thesis
    by (simp add: gtm_Cons gtm_snoc assms matvec_matmul [OF C G] matvec_matmul [OF H C])
qed

theorem first_gate_acts_first_witness:
  "gate_matrix (2 ^ 2) (CNOT 0 1) =
     Inr [[1, 0, 0, 0], [0, 0, 0, 1], [0, 0, 1, 0], [0, 1, 0, 0]] \<and>
   gates_to_matrix [CNOT 1 0, CNOT 0 1] 2 =
     Inr [[1, 0, 0, 0], [0, 0, 1, 0], [0, 0, 0, 1], [0, 1, 0, 0]] \<and>
   gate_matrix (2 ^ 2) (CNOT 1 0) =
     Inr [[1, 0, 0, 0], [0, 1, 0, 0], [0, 0, 0, 1], [0, 0, 1, 0]] \<and>
   gates_to_matrix (CNOT 0 1 # [CNOT 1 0, CNOT 0 1]) 2 =
     Inr (matmul [[1, 0, 0, 0], [0, 0, 1, 0], [0, 0, 0, 1], [0, 1, 0, 0]]
                 [[1, 0, 0, 0], [0, 0, 0, 1], [0, 0, 1, 0], [0, 1, 0, 0]]) \<and>
   matvec (matmul [[1, 0, 0, 0], [0, 0, 1, 0], [0, 0, 0, 1], [0, 1, 0, 0]]
                  [[1, 0, 0, 0], [0, 0, 0, 1], [0, 0, 1, 0], [0, 1, 0, 0]]) [0, 1, 0, 0] =
     matvec [[1, 0, 0, 0], [0, 0, 1, 0], [0, 0, 0, 1], [0, 1, 0, 0]]
       (matvec [[1, 0, 0, 0], [0, 0, 0, 1], [0, 0, 1, 0], [0, 1, 0, 0]] [0, 1, 0, 0]) \<and>
   gates_to_matrix ([CNOT 1 0, CNOT 0 1] @ [CNOT 1 0]) 2 =
     Inr (matmul [[1, 0, 0, 0], [0, 1, 0, 0], [0, 0, 0, 1], [0, 0, 1, 0]]
                 [[1, 0, 0, 0], [0, 0, 1, 0], [0, 0, 0, 1], [0, 1, 0, 0]]) \<and>
   matvec (matmul [[1, 0, 0, 0], [0, 1, 0, 0], [0, 0, 0, 1], [0, 0, 1, 0]]
                  [[1, 0, 0, 0], [0, 0, 1, 0], [0, 0, 0, 1], [0, 1, 0, 0]]) [0, 1, 0, 0] =
     matvec [[1, 0, 0, 0], [0, 1, 0, 0], [0, 0, 0, 1], [0, 0, 1, 0]]
       (matvec [[1, 0, 0, 0], [0, 0, 1, 0], [0, 0, 0, 1], [0, 1, 0, 0]] [0, 1, 0, 0]) \<and>
   matvec [[1, 0, 0, 0], [0, 0, 1, 0], [0, 0, 0, 1], [0, 1, 0, 0]]
     (matvec [[1, 0, 0, 0], [0, 0, 0, 1], [0, 0, 1, 0], [0, 1, 0, 0]] [0, 1, 0, 0]) =
     [0, 0, 1, 0] \<and>
   matvec [[1, 0, 0, 0], [0, 1, 0, 0], [0, 0, 0, 1], [0, 0, 1, 0]]
     (matvec [[1, 0, 0, 0], [0, 0, 1, 0], [0, 0, 0, 1], [0, 1, 0, 0]] [0, 1, 0, 0]) =
     [0, 0, 1, 0]"
proof -
  have a: "matvec [[1, 0, 0, 0], [0, 0, 1, 0], [0, 0, 0, 1], [0, 1, 0, 0]]
     (matvec [[1, 0, 0, 0], [0, 0, 0, 1], [0, 0, 1, 0], [0, 1, 0, 0]] [0, 1, 0, 0]) =
     [0, 0, 1, 0 :: complex]"
    by code_simp
  have b: "matvec [[1, 0, 0, 0], [0, 1, 0, 0], [0, 0, 0, 1], [0, 0, 1, 0]]
     (matvec [[1, 0, 0, 0], [0, 0, 1, 0], [0, 0, 0, 1], [0, 1, 0, 0]] [0, 1, 0, 0]) =
     [0, 0, 1, 0 :: complex]"
    by code_simp
  show ?thesis
    using first_gate_acts_first [OF cnot01_matrix cnots_10_01_matrix cnot10_matrix,
        of "[0, 1, 0, 0]"]
      cnot01_matrix cnots_10_01_matrix cnot10_matrix a b
    by blast
qed

theorem first_gate_last_counterexample:
  "gates_to_matrix [CNOT 0 1, CNOT 1 0] 2 =
     Inr [[1, 0, 0, 0], [0, 0, 0, 1], [0, 1, 0, 0], [0, 0, 1, 0]] \<and>
   gate_matrix (2 ^ 2) (CNOT 0 1) =
     Inr [[1, 0, 0, 0], [0, 0, 0, 1], [0, 0, 1, 0], [0, 1, 0, 0]] \<and>
   gate_matrix (2 ^ 2) (CNOT 1 0) =
     Inr [[1, 0, 0, 0], [0, 1, 0, 0], [0, 0, 0, 1], [0, 0, 1, 0]] \<and>
   matvec [[1, 0, 0, 0], [0, 0, 0, 1], [0, 1, 0, 0], [0, 0, 1, 0]] [0, 1, 0, 0] =
     [0, 0, 1, 0] \<and>
   matvec [[1, 0, 0, 0], [0, 0, 0, 1], [0, 0, 1, 0], [0, 1, 0, 0]]
     (matvec [[1, 0, 0, 0], [0, 1, 0, 0], [0, 0, 0, 1], [0, 0, 1, 0]] [0, 1, 0, 0]) =
     [0, 0, 0, 1] \<and>
   matvec [[1, 0, 0, 0], [0, 0, 0, 1], [0, 1, 0, 0], [0, 0, 1, 0]] [0, 1, 0, 0] \<noteq>
   matvec [[1, 0, 0, 0], [0, 0, 0, 1], [0, 0, 1, 0], [0, 1, 0, 0]]
     (matvec [[1, 0, 0, 0], [0, 1, 0, 0], [0, 0, 0, 1], [0, 0, 1, 0]] [0, 1, 0, 0])"
proof -
  have a: "matvec [[1, 0, 0, 0], [0, 0, 0, 1], [0, 1, 0, 0], [0, 0, 1, 0]] [0, 1, 0, 0] =
     [0, 0, 1, 0 :: complex]"
    by code_simp
  have b: "matvec [[1, 0, 0, 0], [0, 0, 0, 1], [0, 0, 1, 0], [0, 1, 0, 0]]
     (matvec [[1, 0, 0, 0], [0, 1, 0, 0], [0, 0, 0, 1], [0, 0, 1, 0]] [0, 1, 0, 0]) =
     [0, 0, 0, 1 :: complex]"
    by code_simp
  show ?thesis
    unfolding a b using two_cnots_matrix cnot01_matrix cnot10_matrix by simp
qed

text \<open>
  C3: for a qubit index \<open>qubit\<close> in \<open>[0, n)\<close> (so \<open>n \<ge> 1\<close>) and every angle, the matrix the
  evaluator builds for \<open>RZ(angle, qubit)\<close> is diagonal, with entry \<open>exp (- \<i> angle / 2)\<close>
  at each basis index whose bit \<open>qubit\<close> is 1 and \<open>exp (\<i> angle / 2)\<close> at each basis index
  whose bit \<open>qubit\<close> is 0; for the angle 0 it is the identity matrix.
\<close>

theorem rz_matrix_diagonal:
  assumes "well_formed n (RZ angle qubit)"
  shows "\<exists>M. gates_to_matrix [RZ angle qubit] n = Inr M \<and> sq (2 ^ n) M \<and>
     (\<forall>row<2 ^ n. \<forall>col<2 ^ n.
        M ! row ! col =
          (if row = col
           then (if bit col (nat qubit) then exp (- \<i> * complex_of_real angle / 2)
                 else exp (\<i> * complex_of_real angle / 2))
           else 0)) \<and>
     gates_to_matrix [RZ 0 qubit] n = Inr (eye (2 ^ n))"
proof -
  have wf0: "well_formed n (RZ 0 qubit)" using assms by simp
  have M: "gates_to_matrix [RZ angle qubit] n = Inr (mk (2 ^ n) (rz_fun angle (nat qubit)))"
    using gate_matrix_wf [OF assms] by (simp add: gtm_single)
  have Z: "gates_to_matrix [RZ 0 qubit] n = Inr (eye (2 ^ n))"
    using gate_matrix_wf [OF wf0] by (simp add: gtm_single rz_zero_eye)
  have ent: "\<forall>row<2 ^ n. \<forall>col<2 ^ n.
        mk (2 ^ n) (rz_fun angle (nat qubit)) ! row ! col =
          (if row = col
           then (if bit col (nat qubit) then exp (- \<i> * complex_of_real angle / 2)
                 else exp (\<i> * complex_of_real angle / 2))
           else 0)"
    by (simp add: rz_fun_def)
  show ?thesis using M Z ent sq_mk by blast
qed

theorem rz_matrix_diagonal_witness:
  "well_formed 2 (RZ 1 1) \<and>
   (\<exists>M. gates_to_matrix [RZ 1 1] 2 = Inr M \<and> sq (2 ^ 2) M \<and>
     (\<forall>row<2 ^ 2. \<forall>col<2 ^ 2.
        M ! row ! col =
          (if row = col
           then (if bit col (nat 1) then exp (- \<i> * complex_of_real 1 / 2)
                 else exp (\<i> * complex_of_real 1 / 2))
           else 0)) \<and>
     gates_to_matrix [RZ 0 1] 2 = Inr (eye (2 ^ 2)))"
  using rz_matrix_diagonal [of 2 1 1] by simp

text \<open>
  C10: for every qubit count, the evaluator returns the \<open>2 ^ n \<times> 2 ^ n\<close> identity matrix on
  the empty circuit. The identity is the unit of the evaluator's products: a circuit
  followed or preceded by the empty circuit evaluates to the same result, and
  multiplying a result by the identity on either side leaves it unchanged.
\<close>

theorem empty_circuit_identity:
  "gates_to_matrix [] n = Inr (eye (2 ^ n)) \<and>
   gates_to_matrix ([] @ c) n = gates_to_matrix c n \<and>
   gates_to_matrix (c @ []) n = gates_to_matrix c n \<and>
   (gates_to_matrix c n = Inr M \<longrightarrow>
      matmul (eye (2 ^ n)) M = M \<and> matmul M (eye (2 ^ n)) = M)"
  by (auto simp: gtm_Nil dest!: gtm_sq simp: matmul_eye_left matmul_eye_right)

theorem empty_circuit_identity_witness:
  "gates_to_matrix [CNOT 0 1, CNOT 1 0] 2 =
     Inr [[1, 0, 0, 0], [0, 0, 0, 1], [0, 1, 0, 0], [0, 0, 1, 0]] \<and>
   gates_to_matrix [] 2 = Inr (eye (2 ^ 2)) \<and>
   matmul (eye (2 ^ 2)) [[1, 0, 0, 0], [0, 0, 0, 1], [0, 1, 0, 0], [0, 0, 1, 0]] =
     [[1, 0, 0, 0], [0, 0, 0, 1], [0, 1, 0, 0], [0, 0, 1, 0]] \<and>
   matmul [[1, 0, 0, 0], [0, 0, 0, 1], [0, 1, 0, 0], [0, 0, 1, 0]] (eye (2 ^ 2)) =
     [[1, 0, 0, 0], [0, 0, 0, 1], [0, 1, 0, 0], [0, 0, 1, 0]]"
  using empty_circuit_identity [of 2 "[CNOT 0 1, CNOT 1 0]"
      "[[1, 0, 0, 0], [0, 0, 0, 1], [0, 1, 0, 0], [0, 0, 1, 0]]"] two_cnots_matrix
  by blast



text \<open>
  C8: the claim promises a DimensionMismatch error for every qubit index outside
  \<open>[0, n)\<close>. The evaluator defines no such error and does not check the indices: an
  index of \<open>n\<close> or more in the control of a CNOT or in the qubit of an RZ is never
  tested against \<open>n\<close>, and the evaluator returns a matrix. What remains of the claim: a
  circuit with a gate whose CNOT control or RZ qubit is negative, or with a CNOT whose
  control lies in \<open>[0, n)\<close> and whose target lies outside \<open>[0, n)\<close>, makes the evaluator
  fail with an error of Python or numpy instead of returning a matrix.
\<close>

theorem evaluator_failure:
  assumes "list_ex (raises n) c"
  shows "\<exists>e. gates_to_matrix c n = Inl e"
  using assms by (simp add: gtm_raises)

theorem evaluator_failure_witness:
  "list_ex (raises 1) [RZ 1 0, CNOT 0 5] \<and> (\<exists>e. gates_to_matrix [RZ 1 0, CNOT 0 5] 1 = Inl e)"
proof -
  have r: "list_ex (raises 1) [RZ 1 0, CNOT 0 5]" by simp
  show ?thesis using r evaluator_failure [OF r] by blast
qed

theorem evaluator_failure_counterexample:
  "gates_to_matrix [CNOT 5 0] 1 = Inr [[1, 0], [0, 1]] \<and> \<not> (5::int) < int 1 \<and>
   gates_to_matrix [RZ 0 3] 1 = Inr [[1, 0], [0, 1]] \<and> \<not> (3::int) < int 1"
  using cnot50_matrix rz03_matrix by simp

text \<open>
  C9: for an original matrix \<open>U\<close> and a reconstructed matrix \<open>U'\<close> of the same shape
  \<open>d \<times> d\<close> with \<open>d > 0\<close>, the driver computes the maximum \<open>diff\<close> of the moduli of the
  entries of \<open>U - U'\<close> (an upper bound of all of them that one of them attains), computes
  the relative error as \<open>diff\<close> divided by the maximum modulus \<open>m\<close> of the entries of \<open>U\<close>
  (a real number unless \<open>m = 0\<close>, that is, unless \<open>U\<close> is the zero matrix),
  and accepts exactly when \<open>diff < 1e-6\<close>, that is, when every entry of \<open>U - U'\<close> has a
  modulus below \<open>1e-6\<close>.
\<close>

theorem driver_metrics:
  assumes "sq d U" and "sq d U'" and "0 < d"
  shows "\<exists>diff m.
           difference U U' = Inr diff \<and>
           (\<forall>r<d. \<forall>c<d. cmod (U ! r ! c - U' ! r ! c) \<le> diff) \<and>
           (\<exists>r<d. \<exists>c<d. diff = cmod (U ! r ! c - U' ! r ! c)) \<and>
           np_max (np_abs U) = Inr m \<and>
           (\<forall>r<d. \<forall>c<d. cmod (U ! r ! c) \<le> m) \<and>
           (\<exists>r<d. \<exists>c<d. m = cmod (U ! r ! c)) \<and>
           relative_error U U' = Inr (if m = 0 then None else Some (diff / m)) \<and>
           is_accurate U U' = Inr (diff < 1 / 10 ^ 6) \<and>
           (diff < 1 / 10 ^ 6 \<longleftrightarrow>
              (\<forall>r<d. \<forall>c<d. cmod (U ! r ! c - U' ! r ! c) < 1 / 10 ^ 6))"
proof -
  obtain diff where diff: "difference U U' = Inr diff"
    and dge: "\<forall>r<d. \<forall>c<d. cmod (U ! r ! c - U' ! r ! c) \<le> diff"
    and dat: "\<exists>r<d. \<exists>c<d. diff = cmod (U ! r ! c - U' ! r ! c)"
    using np_max_table [OF assms(3), of "\<lambda>r c. cmod (U ! r ! c - U' ! r ! c)"]
    unfolding difference_def np_abs_sub [OF assms(1,2)] by blast
  obtain m where m: "np_max (np_abs U) = Inr m"
    and mge: "\<forall>r<d. \<forall>c<d. cmod (U ! r ! c) \<le> m"
    and mat: "\<exists>r<d. \<exists>c<d. m = cmod (U ! r ! c)"
    using np_max_table [OF assms(3), of "\<lambda>r c. cmod (U ! r ! c)"]
    unfolding np_abs_sq [OF assms(1)] by blast
  have rel: "relative_error U U' = Inr (if m = 0 then None else Some (diff / m))"
    by (simp add: relative_error_def np_divide_def diff m)
  have acc: "is_accurate U U' = Inr (diff < 1 / 10 ^ 6)"
    by (simp add: is_accurate_def diff)
  have iff: "diff < 1 / 10 ^ 6 \<longleftrightarrow>
              (\<forall>r<d. \<forall>c<d. cmod (U ! r ! c - U' ! r ! c) < 1 / 10 ^ 6)"
  proof
    assume "diff < 1 / 10 ^ 6"
    then show "\<forall>r<d. \<forall>c<d. cmod (U ! r ! c - U' ! r ! c) < 1 / 10 ^ 6"
      using dge by (meson le_less_trans)
  next
    assume "\<forall>r<d. \<forall>c<d. cmod (U ! r ! c - U' ! r ! c) < 1 / 10 ^ 6"
    then show "diff < 1 / 10 ^ 6" using dat by auto
  qed
  show ?thesis
    using diff dge dat m mge mat rel acc iff by blast
qed

theorem driver_metrics_witness:
  "sq 2 [[1, 0], [0, 1]] \<and> sq 2 [[1, 0], [0, 0]] \<and> (0::nat) < 2 \<and>
   (\<exists>diff m.
      difference [[1, 0], [0, 1]] [[1, 0], [0, 0]] = Inr diff \<and>
      (\<forall>r<2. \<forall>c<2. cmod ([[1, 0], [0, 1]] ! r ! c - [[1, 0], [0, 0]] ! r ! c) \<le> diff) \<and>
      (\<exists>r<2. \<exists>c<2. diff = cmod ([[1, 0], [0, 1]] ! r ! c - [[1, 0], [0, 0]] ! r ! c)) \<and>
      np_max (np_abs [[1, 0], [0, 1]]) = Inr m \<and>
      (\<forall>r<2. \<forall>c<2. cmod ([[1, 0], [0, 1]] ! r ! c) \<le> m) \<and>
      (\<exists>r<2. \<exists>c<2. m = cmod ([[1, 0], [0, 1]] ! r ! c)) \<and>
      relative_error [[1, 0], [0, 1]] [[1, 0], [0, 0]] =
        Inr (if m = 0 then None else Some (diff / m)) \<and>
      is_accurate [[1, 0], [0, 1]] [[1, 0], [0, 0]] = Inr (diff < 1 / 10 ^ 6) \<and>
      (diff < 1 / 10 ^ 6 \<longleftrightarrow>
         (\<forall>r<2. \<forall>c<2.
            cmod ([[1, 0], [0, 1]] ! r ! c - [[1, 0], [0, 0]] ! r ! c) < 1 / 10 ^ 6)))"
proof -
  have a: "sq 2 [[1, 0], [0, 1]]" by code_simp
  have b: "sq 2 [[1, 0], [0, 0]]" by code_simp
  have c: "(0::nat) < 2" by simp
  show ?thesis
    by (intro conjI a b c driver_metrics [OF a b c])
qed

text \<open>
  C6: the synthesizer is not among the sources; it is modelled from section 4.3 of the
  specification, which drops the global phase. The claim promises that the circuit of a
  diagonal unitary matrix \<open>D\<close> evaluates to \<open>D\<close>. The circuit reproduces \<open>D\<close> up to that
  global phase only: for every diagonal unitary matrix \<open>D\<close> of dimension \<open>2 ^ n\<close>, the
  evaluator returns \<open>exp (- \<i> a) D\<close> on the synthesized circuit, where \<open>a\<close> is the mean of
  the phase angles of the diagonal of \<open>D\<close>; it returns \<open>D\<close> itself when \<open>exp (\<i> a) = 1\<close>.
\<close>

theorem synthesizer_up_to_global_phase:
  assumes "diagonal_unitary n D"
  shows "gates_to_matrix (build_optimal_walsh_circuit D) n =
           Inr (scale (cis (- mean_phase D)) D) \<and>
         (cis (mean_phase D) = 1 \<longrightarrow>
            gates_to_matrix (build_optimal_walsh_circuit D) n = Inr D)"
proof -
  have "cis (- mean_phase D) = 1" if "cis (mean_phase D) = 1"
    using that cis_cnj [of "mean_phase D"] by simp
  then show ?thesis
    using synthesis_up_to_phase [OF assms] by (auto simp: scale_one)
qed

theorem synthesizer_up_to_global_phase_witness:
  "diagonal_unitary 1 [[1, 0], [0, - 1]] \<and>
   gates_to_matrix (build_optimal_walsh_circuit [[1, 0], [0, - 1]]) 1 =
     Inr (scale (cis (- mean_phase [[1, 0], [0, - 1]])) [[1, 0], [0, - 1]])"
  using synthesizer_up_to_global_phase [OF diag_z_unitary] diag_z_unitary by blast

theorem synthesizer_exact_counterexample:
  "diagonal_unitary 1 [[\<i>, 0], [0, \<i>]] \<and>
   gates_to_matrix (build_optimal_walsh_circuit [[\<i>, 0], [0, \<i>]]) 1 = Inr [[1, 0], [0, 1]] \<and>
   1 \<le> cmod ([[\<i>, 0], [0, \<i>]] ! 0 ! 0 - [[1, 0], [0, 1]] ! 0 ! 0)"
proof -
  have "1 \<le> cmod (\<i> - 1)" by (simp add: cmod_def)
  then show ?thesis using diag_i_unitary synthesis_i by simp
qed

end
